theory Spec2Isabelle
  imports Main "HOL-Library.Word" "HOL-Library.List_Lexorder" "HOL-Library.Char_ord"
begin

unbundle bit_operations_syntax

section \<open>The topic tree of TopicTreeDraft.h\<close>

text \<open>
  The header defines three structs: \<open>Subscriber\<close>, \<open>Topic\<close> and \<open>TopicTree\<close>. The tree is a
  graph of heap objects linked by raw pointers (child maps, a parent pointer, two wildcard
  pointers, the array of triggered topics), so the model keeps an explicit store.

  \<^item> A \<open>Topic *\<close> is the index of the object in the list of all \<open>Topic\<close> objects, in the order
    of their allocation. The code never deletes a \<open>Topic\<close>, so the list only grows. Index 0 is
    the root (\<open>Topic *root = new Topic\<close>).
  \<^item> A \<open>Subscriber *\<close> is the 64-bit address of the object; \<open>std::set<Subscriber *>\<close> orders
    its elements by address, and \<open>0\<close> is \<open>nullptr\<close>.
  \<^item> \<open>std::set\<close> is a strictly ascending list, \<open>std::map\<close> a list of pairs with strictly
    ascending keys: the iteration order of both is what \<open>drain\<close> observes.
  \<^item> Where the C++ code has undefined behaviour, the model returns a \<open>fault\<close>, so that no
    theorem speaks about a state the language does not define.
  \<^item> A loop or recursion that may not end returns an \<open>option\<close>: \<open>None\<close> means that the call
    does not return.
\<close>

type_synonym tptr = nat
type_synonym sptr = "64 word"

record Topic =
  name :: string
  parent :: "tptr option"
  triggered :: bool
  children :: "(string \<times> tptr) list"
  wildcardChild :: "tptr option"
  terminatingWildcardChild :: "tptr option"
  messages :: "(int \<times> string) list"
  subs :: "sptr list"

text \<open>
  The fields of \<open>TopicTree\<close>, together with the \<open>subscriptions\<close> field of every
  \<open>Subscriber\<close> object (by address). \<open>triggeredTopics\<close> holds the first
  \<open>numTriggeredTopics\<close> entries of the array, so \<open>numTriggeredTopics\<close> is its length.
  \<open>min_sub\<close> is the field \<open>min\<close>. \<open>messageId\<close> is a C++ \<open>int\<close>: the model uses \<open>int\<close> and
  makes the increment past \<open>INT_MAX\<close> a fault.
\<close>

record TopicTree =
  heap :: "Topic list"
  subscriptions :: "sptr \<Rightarrow> tptr list"
  messageId :: int
  triggeredTopics :: "tptr list"
  min_sub :: sptr

text \<open>The undefined behaviour the code can reach. The code checks for none of it.\<close>

datatype fault =
    WritePastTriggeredTopics  \<comment> \<open>\<open>triggeredTopics[numTriggeredTopics++] = ...\<close> at index 64 or more\<close>
  | DerefEndOfEmptySet        \<comment> \<open>\<open>*subs.begin()\<close> of an empty \<open>std::set\<close>\<close>
  | ShiftCountTooLarge        \<comment> \<open>\<open>1 << i\<close> on a 32-bit \<open>int\<close> with \<open>i \<ge> 32\<close>\<close>
  | SignedOverflow            \<comment> \<open>\<open>messageId++\<close> at \<open>INT_MAX\<close>\<close>
  | NullDeref                 \<comment> \<open>\<open>parent->...\<close> in \<open>trimTree\<close> on a topic without parent\<close>

definition root :: tptr where
  "root = 0"

definition UINTPTR_MAX :: sptr where
  "UINTPTR_MAX = - 1"

definition new_Topic :: Topic where
  "new_Topic = \<lparr>name = [], parent = None, triggered = False, children = [],
     wildcardChild = None, terminatingWildcardChild = None, messages = [], subs = []\<rparr>"

definition init :: TopicTree where
  "init = \<lparr>heap = [new_Topic], subscriptions = (\<lambda>_. []), messageId = 0,
     triggeredTopics = [], min_sub = UINTPTR_MAX\<rparr>"

subsection \<open>The containers\<close>

text \<open>\<open>std::set::insert\<close>: no effect when the element is present.\<close>

fun set_insert :: "'a::linorder \<Rightarrow> 'a list \<Rightarrow> 'a list" where
  "set_insert x [] = [x]"
| "set_insert x (y # ys) =
     (if x < y then x # y # ys else if x = y then y # ys else y # set_insert x ys)"

text \<open>\<open>std::map::insert\<close>: no effect when the key is present.\<close>

fun map_insert :: "'k::linorder \<Rightarrow> 'v \<Rightarrow> ('k \<times> 'v) list \<Rightarrow> ('k \<times> 'v) list" where
  "map_insert k v [] = [(k, v)]"
| "map_insert k v ((k', v') # m) =
     (if k < k' then (k, v) # (k', v') # m
      else if k = k' then (k', v') # m
      else (k', v') # map_insert k v m)"

text \<open>\<open>m[k] = v\<close>: the value of a present key is overwritten.\<close>

fun map_assign :: "'k::linorder \<Rightarrow> 'v \<Rightarrow> ('k \<times> 'v) list \<Rightarrow> ('k \<times> 'v) list" where
  "map_assign k v [] = [(k, v)]"
| "map_assign k v ((k', v') # m) =
     (if k < k' then (k, v) # (k', v') # m
      else if k = k' then (k, v) # m
      else (k', v') # map_assign k v m)"

text \<open>\<open>std::map::erase(key)\<close>.\<close>

definition map_erase :: "'k \<Rightarrow> ('k \<times> 'v) list \<Rightarrow> ('k \<times> 'v) list" where
  "map_erase k m = filter (\<lambda>kv. fst kv \<noteq> k) m"

subsection \<open>Walking a topic string\<close>

text \<open>
  Both \<open>subscribe\<close> and \<open>publish\<close> run
  \<open>for (; stop != npos; start = stop + 1) { stop = topic.find('/', start);
  segment = topic.substr(start, stop - start); ... }\<close>.
  The model keeps the part of the topic from \<open>start\<close> on, or \<open>None\<close> once \<open>stop\<close> is \<open>npos\<close>.
  \<open>segment r\<close> is the \<open>substr\<close>, \<open>after_slash r\<close> the rest from \<open>stop + 1\<close> on (\<open>None\<close> when
  \<open>find\<close> returned \<open>npos\<close>).
\<close>

definition segment :: "string \<Rightarrow> string" where
  "segment r = takeWhile (\<lambda>c. c \<noteq> CHR ''/'') r"

definition after_slash :: "string \<Rightarrow> string option" where
  "after_slash r = (case dropWhile (\<lambda>c. c \<noteq> CHR ''/'') r of [] \<Rightarrow> None | _ # r' \<Rightarrow> Some r')"

definition rest_size :: "string option \<Rightarrow> nat" where
  "rest_size r = (case r of None \<Rightarrow> 0 | Some t \<Rightarrow> Suc (length t))"

lemma after_slash_smaller: "rest_size (after_slash r) < rest_size (Some r)"
proof -
  have "length (dropWhile (\<lambda>c. c \<noteq> CHR ''/'') r) \<le> length r"
    by (rule length_dropWhile_le)
  then show ?thesis
    by (auto simp: rest_size_def after_slash_def split: list.splits)
qed

subsection \<open>subscribe\<close>

text \<open>
  The loop of \<open>subscribe\<close>: \<open>lower_bound\<close> followed by the key comparison is a lookup of the
  segment; a missing child is allocated (at the next free index), inserted into the child map
  and, when the segment is \<open>+\<close> or \<open>#\<close>, stored in the wildcard pointer of the parent.
\<close>

definition add_child :: "string \<Rightarrow> tptr \<Rightarrow> Topic \<Rightarrow> Topic" where
  "add_child seg n t =
     t\<lparr>children := map_insert seg n (children t),
       wildcardChild :=
         (if length seg = 1 \<and> seg ! 0 = CHR ''+'' then Some n else wildcardChild t),
       terminatingWildcardChild :=
         (if length seg = 1 \<and> seg ! 0 = CHR ''#'' then Some n else terminatingWildcardChild t)\<rparr>"

function subscribe_walk :: "tptr \<Rightarrow> string option \<Rightarrow> Topic list \<Rightarrow> tptr \<times> Topic list" where
  "subscribe_walk iterator None h = (iterator, h)"
| "subscribe_walk iterator (Some r) h =
     (case map_of (children (h ! iterator)) (segment r) of
        Some c \<Rightarrow> subscribe_walk c (after_slash r) h
      | None \<Rightarrow>
          subscribe_walk (length h) (after_slash r)
            (h[iterator := add_child (segment r) (length h) (h ! iterator)]
               @ [new_Topic\<lparr>name := segment r, parent := Some iterator\<rparr>]))"
  by pat_completeness auto
termination
  by (relation "measure (\<lambda>(i, r, h). rest_size r)") (auto simp: after_slash_smaller)

definition subscribe :: "string \<Rightarrow> sptr \<Rightarrow> TopicTree \<Rightarrow> TopicTree" where
  "subscribe topic subscriber s =
     (case subscribe_walk root (Some topic) (heap s) of
        (iterator, h) \<Rightarrow>
          s\<lparr>heap := h[iterator := (h ! iterator)\<lparr>subs := set_insert subscriber (subs (h ! iterator))\<rparr>],
            subscriptions := (subscriptions s)
              (subscriber := subscriptions s subscriber @ [iterator])\<rparr>)"

subsection \<open>publish\<close>

text \<open>
  The block that the private \<open>publish\<close> runs for the terminating wildcard child and for the
  node reached at the end of the topic: store the message under \<open>messageId\<close>, and when the
  node is not yet triggered append it to \<open>triggeredTopics\<close>, lower \<open>min\<close> to its first
  subscriber and set the flag.
\<close>

definition store_trigger :: "tptr \<Rightarrow> string \<Rightarrow> TopicTree \<Rightarrow> fault + TopicTree" where
  "store_trigger t message s =
     (let h = (heap s)[t := (heap s ! t)\<lparr>messages := map_assign (messageId s) message (messages (heap s ! t))\<rparr>]
      in if triggered (h ! t) then Inr (s\<lparr>heap := h\<rparr>)
         else if 64 \<le> length (triggeredTopics s) then Inl WritePastTriggeredTopics
         else (case subs (h ! t) of
                 [] \<Rightarrow> Inl DerefEndOfEmptySet
               | x # _ \<Rightarrow>
                   Inr (s\<lparr>heap := h[t := (h ! t)\<lparr>triggered := True\<rparr>],
                          triggeredTopics := triggeredTopics s @ [t],
                          min_sub := (if x < min_sub s then x else min_sub s)\<rparr>)))"

function publish_walk :: "tptr \<Rightarrow> string option \<Rightarrow> string \<Rightarrow> TopicTree \<Rightarrow> fault + TopicTree" where
  "publish_walk iterator None message s = store_trigger iterator message s"
| "publish_walk iterator (Some r) message s =
     (case (case terminatingWildcardChild (heap s ! iterator) of
              None \<Rightarrow> Inr s
            | Some t \<Rightarrow> store_trigger t message s) of
        Inl f \<Rightarrow> Inl f
      | Inr s1 \<Rightarrow>
          (case (case wildcardChild (heap s1 ! iterator) of
                   None \<Rightarrow> Inr s1
                 | Some w \<Rightarrow> publish_walk w (after_slash r) message s1) of
             Inl f \<Rightarrow> Inl f
           | Inr s2 \<Rightarrow>
               (case map_of (children (heap s2 ! iterator)) (segment r) of
                  None \<Rightarrow> Inr s2
                | Some c \<Rightarrow> publish_walk c (after_slash r) message s2)))"
  by pat_completeness auto
termination
  by (relation "measure (\<lambda>(i, r, m, s). rest_size r)") (auto simp: after_slash_smaller)

definition publish :: "string \<Rightarrow> string \<Rightarrow> TopicTree \<Rightarrow> fault + TopicTree" where
  "publish topic message s =
     (case publish_walk root (Some topic) message s of
        Inl f \<Rightarrow> Inl f
      | Inr s' \<Rightarrow>
          if messageId s' = 2147483647 then Inl SignedOverflow
          else Inr (s'\<lparr>messageId := messageId s' + 1\<rparr>))"

subsection \<open>unsubscribeAll and trimTree\<close>

text \<open>
  \<open>trimTree\<close> calls itself on the parent. In a store whose parent pointers form a cycle the
  recursion would not end, so the model is a partial function.
\<close>

definition is_unused :: "Topic \<Rightarrow> bool" where
  "is_unused t \<longleftrightarrow>
     subs t = [] \<and> children t = [] \<and> terminatingWildcardChild t = None \<and> wildcardChild t = None"

definition detach :: "string \<Rightarrow> Topic \<Rightarrow> Topic" where
  "detach nm p =
     p\<lparr>terminatingWildcardChild :=
         (if length nm = 1 \<and> nm ! 0 = CHR ''#'' then None else terminatingWildcardChild p),
       wildcardChild :=
         (if length nm = 1 \<and> nm ! 0 \<noteq> CHR ''#'' \<and> nm ! 0 = CHR ''+'' then None else wildcardChild p),
       children := map_erase nm (children p)\<rparr>"

partial_function (option) trimTree :: "tptr \<Rightarrow> Topic list \<Rightarrow> (fault + Topic list) option" where
  "trimTree topic h =
     (if is_unused (h ! topic) then
        (case parent (h ! topic) of
           None \<Rightarrow> Some (Inl NullDeref)
         | Some p \<Rightarrow>
             if p \<noteq> root then trimTree p (h[p := detach (name (h ! topic)) (h ! p)])
             else Some (Inr (h[p := detach (name (h ! topic)) (h ! p)])))
      else Some (Inr h))"

declare trimTree.simps [code]

text \<open>The loop \<open>for (Topic *topic : subscriber->subscriptions)\<close>.\<close>

fun unsubscribe_each :: "sptr \<Rightarrow> tptr list \<Rightarrow> Topic list \<Rightarrow> (fault + Topic list) option" where
  "unsubscribe_each subscriber [] h = Some (Inr h)"
| "unsubscribe_each subscriber (topic # ts) h =
     (case trimTree topic (h[topic := (h ! topic)\<lparr>subs := removeAll subscriber (subs (h ! topic))\<rparr>]) of
        None \<Rightarrow> None
      | Some (Inl f) \<Rightarrow> Some (Inl f)
      | Some (Inr h') \<Rightarrow> unsubscribe_each subscriber ts h')"

definition unsubscribeAll :: "sptr \<Rightarrow> TopicTree \<Rightarrow> (fault + TopicTree) option" where
  "unsubscribeAll subscriber s =
     (if subscriber = 0 then Some (Inr s)
      else (case unsubscribe_each subscriber (subscriptions s subscriber) (heap s) of
              None \<Rightarrow> None
            | Some (Inl f) \<Rightarrow> Some (Inl f)
            | Some (Inr h) \<Rightarrow> Some (Inr (s\<lparr>heap := h\<rparr>))))"

subsection \<open>drain\<close>

text \<open>
  \<open>1 << i\<close> is a shift of the \<open>int\<close> constant 1. Up to 30 the result is \<open>2 ^ i\<close>; at 31 it is
  \<open>INT_MIN\<close>, which \<open>intersection |= ...\<close> converts to \<open>uint64_t\<close> by sign extension; from 32
  on the shift is undefined.
\<close>

definition shl_int :: "nat \<Rightarrow> fault + 64 word" where
  "shl_int i = (if i < 32 then Inr (scast (push_bit i (1 :: 32 word))) else Inl ShiftCountTooLarge)"

text \<open>
  The local variables of one pass of the inner \<open>for\<close> loop of \<open>drain\<close>.
  \<open>perSubscriberIntersectingTopicMessages\<close> holds pointers to the \<open>messages\<close> maps of
  triggered topics: the model keeps the topics.
\<close>

record scan_acc =
  nextMin :: sptr
  perSubscriberIntersectingTopicMessages :: "tptr list"
  intersection :: "64 word"
  nonEmpty :: int

text \<open>
  The body of the inner loop \<open>for (int i = 0; i < numTriggeredTopics; i++)\<close> for one
  \<open>i\<close>. The cursor \<open>it[i]\<close> with its \<open>end[i]\<close> is the list of the subscribers from
  \<open>it[i]\<close> on; the result is the cursor after the step.
\<close>

definition scan_step :: "sptr \<Rightarrow> nat \<Rightarrow> tptr \<Rightarrow> sptr list \<Rightarrow> scan_acc
    \<Rightarrow> fault + (sptr list \<times> scan_acc)" where
  "scan_step m i t c a =
     (case c of
        [] \<Rightarrow> Inr (c, a)
      | x # c' \<Rightarrow>
          if x = m then
            (case shl_int i of
               Inl f \<Rightarrow> Inl f
             | Inr b \<Rightarrow>
                 (let a1 = a\<lparr>intersection := intersection a OR b,
                              perSubscriberIntersectingTopicMessages :=
                                perSubscriberIntersectingTopicMessages a @ [t]\<rparr>
                  in case c' of
                       [] \<Rightarrow> Inr (c', a1\<lparr>nonEmpty := nonEmpty a1 - 1\<rparr>)
                     | y # _ \<Rightarrow> Inr (c', if nextMin a1 > y then a1\<lparr>nextMin := y\<rparr> else a1)))
          else Inr (c, if nextMin a > x then a\<lparr>nextMin := x\<rparr> else a))"

text \<open>The inner loop, from index \<open>i\<close> on. The result is the new cursors.\<close>

fun scan :: "sptr \<Rightarrow> nat \<Rightarrow> tptr list \<Rightarrow> sptr list list \<Rightarrow> scan_acc
    \<Rightarrow> fault + (sptr list list \<times> scan_acc)" where
  "scan m i (t # ts) (c # cs) a =
     (case scan_step m i t c a of
        Inl f \<Rightarrow> Inl f
      | Inr (c', a1) \<Rightarrow>
          (case scan m (Suc i) ts cs a1 of
             Inl f \<Rightarrow> Inl f
           | Inr (cs', a') \<Rightarrow> Inr (c' # cs', a')))"
| "scan m i _ _ a = Inr ([], a)"

text \<open>
  \<open>complete.insert(first, last)\<close> inserts the entries of one \<open>messages\<close> map in order;
  \<open>build_payload\<close> is the block that builds \<open>complete\<close> and appends its values to \<open>res\<close>.
\<close>

definition insert_range :: "('k::linorder \<times> 'v) list \<Rightarrow> ('k \<times> 'v) list \<Rightarrow> ('k \<times> 'v) list" where
  "insert_range src complete = fold (\<lambda>kv. map_insert (fst kv) (snd kv)) src complete"

definition build_payload :: "(int \<times> string) list list \<Rightarrow> string" where
  "build_payload ms = concat (map snd (fold insert_range ms []))"

text \<open>
  One call of the callback \<open>cb\<close>: the subscriber and the payload it is given. The model also
  records which branch made the call (\<open>built\<close>: the payload was constructed; otherwise it was
  read from \<open>intersectionCache\<close>) and the topics \<open>perSubscriberIntersectingTopicMessages\<close>
  held. The return value of \<open>cb\<close> is ignored by the code.
\<close>

record delivery =
  who :: sptr
  payload :: string
  built :: bool
  matched :: "tptr list"

text \<open>
  One pass of the outer loop \<open>for (int nonEmpty = numTriggeredTopics; nonEmpty; )\<close>: the
  inner loop, the lookup in \<open>intersectionCache\<close>, the call of \<open>cb\<close> and \<open>min = nextMin\<close>.
  \<open>intersectionCache\<close> is only read through \<open>operator[]\<close>, which gives the empty string
  for a missing key: it is a function with default \<open>[]\<close>. The result is the new cursors, the
  new \<open>nonEmpty\<close>, the new \<open>min\<close>, the new cache and the call of \<open>cb\<close>.
\<close>

definition drain_iter ::
    "Topic list \<Rightarrow> tptr list \<Rightarrow> sptr list list \<Rightarrow> int \<Rightarrow> sptr \<Rightarrow> (64 word \<Rightarrow> string)
      \<Rightarrow> fault + (sptr list list \<times> int \<times> sptr \<times> (64 word \<Rightarrow> string) \<times> delivery)" where
  "drain_iter h tts cs ne m cache =
     (case scan m 0 tts cs
         \<lparr>nextMin = UINTPTR_MAX, perSubscriberIntersectingTopicMessages = [],
          intersection = 0, nonEmpty = ne\<rparr> of
        Inl f \<Rightarrow> Inl f
      | Inr (cs', a) \<Rightarrow>
          if length (cache (intersection a)) = 0 then
            (let res = build_payload
                  (map (\<lambda>t. messages (h ! t)) (perSubscriberIntersectingTopicMessages a))
             in Inr (cs', nonEmpty a, nextMin a, cache(intersection a := res),
                  \<lparr>who = m, payload = res, built = True,
                   matched = perSubscriberIntersectingTopicMessages a\<rparr>))
          else
            Inr (cs', nonEmpty a, nextMin a, cache,
              \<lparr>who = m, payload = cache (intersection a), built = False,
               matched = perSubscriberIntersectingTopicMessages a\<rparr>))"

text \<open>The outer loop. The result is the final \<open>min\<close> and the calls of \<open>cb\<close>, in order.\<close>

partial_function (option) drain_loop ::
    "Topic list \<Rightarrow> tptr list \<Rightarrow> sptr list list \<Rightarrow> int \<Rightarrow> sptr \<Rightarrow> (64 word \<Rightarrow> string)
      \<Rightarrow> delivery list \<Rightarrow> (fault + sptr \<times> delivery list) option" where
  "drain_loop h tts cs ne m cache log =
     (if ne = 0 then Some (Inr (m, log))
      else
        (case drain_iter h tts cs ne m cache of
           Inl f \<Rightarrow> Some (Inl f)
         | Inr (cs', ne', m', cache', d) \<Rightarrow> drain_loop h tts cs' ne' m' cache' (log @ [d])))"

declare drain_loop.simps [code]

text \<open>The final loop of \<open>drain\<close>, which clears the triggered topics.\<close>

definition clear_topic :: "tptr \<Rightarrow> Topic list \<Rightarrow> Topic list" where
  "clear_topic t h = h[t := (h ! t)\<lparr>messages := [], triggered := False\<rparr>]"

text \<open>
  \<open>drain\<close>. The branch \<open>numTriggeredTopics == -555555\<close> is never taken from a count that
  starts at 0 and is only incremented and reset. The result is the calls of \<open>cb\<close>, in order,
  and the new state.
\<close>

definition drain :: "TopicTree \<Rightarrow> (fault + delivery list \<times> TopicTree) option" where
  "drain s =
     (if triggeredTopics s = [] then Some (Inr ([], s))
      else
        (case drain_loop (heap s) (triggeredTopics s)
                (map (\<lambda>t. subs (heap s ! t)) (triggeredTopics s))
                (int (length (triggeredTopics s))) (min_sub s) (\<lambda>_. []) [] of
           None \<Rightarrow> None
         | Some (Inl f) \<Rightarrow> Some (Inl f)
         | Some (Inr (m, log)) \<Rightarrow>
             Some (Inr (log, s\<lparr>heap := fold clear_topic (triggeredTopics s) (heap s),
                              triggeredTopics := [], min_sub := m\<rparr>))))"

subsection \<open>Sequences of calls\<close>

text \<open>
  A client of the tree makes a sequence of calls. \<open>run\<close> makes them in order from a given
  state and collects the calls of \<open>cb\<close>; it stops at the first call that has undefined
  behaviour (\<open>Some (Inl f)\<close>) or does not return (\<open>None\<close>).
\<close>

datatype call =
    Subscribe string sptr
  | Publish string string
  | UnsubscribeAll sptr
  | Drain

type_synonym outcome = "(fault + delivery list \<times> TopicTree) option"

fun exec :: "call \<Rightarrow> delivery list \<times> TopicTree \<Rightarrow> outcome" where
  "exec (Subscribe topic subscriber) (l, s) = Some (Inr (l, subscribe topic subscriber s))"
| "exec (Publish topic message) (l, s) =
     (case publish topic message s of
        Inl f \<Rightarrow> Some (Inl f)
      | Inr s' \<Rightarrow> Some (Inr (l, s')))"
| "exec (UnsubscribeAll subscriber) (l, s) =
     (case unsubscribeAll subscriber s of
        None \<Rightarrow> None
      | Some (Inl f) \<Rightarrow> Some (Inl f)
      | Some (Inr s') \<Rightarrow> Some (Inr (l, s')))"
| "exec Drain (l, s) =
     (case drain s of
        None \<Rightarrow> None
      | Some (Inl f) \<Rightarrow> Some (Inl f)
      | Some (Inr (l', s')) \<Rightarrow> Some (Inr (l @ l', s')))"

fun run :: "call list \<Rightarrow> delivery list \<times> TopicTree \<Rightarrow> outcome" where
  "run [] ls = Some (Inr ls)"
| "run (c # cs) ls =
     (case exec c ls of
        None \<Rightarrow> None
      | Some (Inl f) \<Rightarrow> Some (Inl f)
      | Some (Inr ls') \<Rightarrow> run cs ls')"

text \<open>What a sequence of calls that returned has left: the calls of \<open>cb\<close>, and a topic.\<close>

definition the_log :: "outcome \<Rightarrow> delivery list option" where
  "the_log r = (case r of Some (Inr (l, s)) \<Rightarrow> Some l | _ \<Rightarrow> None)"

definition delivered :: "outcome \<Rightarrow> (sptr \<times> string) list option" where
  "delivered r = map_option (map (\<lambda>d. (who d, payload d))) (the_log r)"

definition topic_after :: "tptr \<Rightarrow> outcome \<Rightarrow> Topic option" where
  "topic_after t r = (case r of Some (Inr (l, s)) \<Rightarrow> Some (heap s ! t) | _ \<Rightarrow> None)"

definition batch_after :: "outcome \<Rightarrow> tptr list option" where
  "batch_after r = (case r of Some (Inr (l, s)) \<Rightarrow> Some (triggeredTopics s) | _ \<Rightarrow> None)"

text \<open>Calls that subscribe one subscriber to, or publish one message on, each one-character topic.\<close>

definition subscribe_each :: "sptr \<Rightarrow> string \<Rightarrow> call list" where
  "subscribe_each x cs = map (\<lambda>c. Subscribe [c] x) cs"

definition publish_each :: "string \<Rightarrow> string \<Rightarrow> call list" where
  "publish_each m cs = map (\<lambda>c. Publish [c] m) cs"

definition topics65 :: string where
  "topics65 = ''abcdefghijklmnopqrstuvwxyzABCDEFGHIJKLMNOPQRSTUVWXYZ0123456789_-.''"

definition batch_summary ::
    "outcome \<Rightarrow> (delivery list \<times> tptr list \<times> sptr \<times> sptr list list) option" where
  "batch_summary r =
     (case r of
        Some (Inr (l, s)) \<Rightarrow> Some (l, triggeredTopics s, min_sub s, map subs (heap s))
      | _ \<Rightarrow> None)"

text \<open>
  The state after \<open>subscribe("a/#", 16)\<close> and \<open>publish("a/b", "M")\<close> on a new tree: the
  topics are the root, \<open>a\<close> and \<open>a/#\<close>; the last one is triggered.
\<close>

definition example_batch :: TopicTree where
  "example_batch =
     \<lparr>heap =
        [new_Topic\<lparr>children := [(''a'', 1)]\<rparr>,
         new_Topic\<lparr>name := ''a'', parent := Some 0, children := [(''#'', 2)],
           terminatingWildcardChild := Some 2\<rparr>,
         new_Topic\<lparr>name := ''#'', parent := Some 1, triggered := True,
           messages := [(0, ''M'')], subs := [16]\<rparr>],
      subscriptions = (\<lambda>_. [])(16 := [2]), messageId = 1,
      triggeredTopics = [2], min_sub = 16\<rparr>"

subsection \<open>Well-formed stores\<close>

text \<open>
  Every child pointer of a store points to an allocated topic, and the root is allocated.
\<close>

definition valid_heap :: "Topic list \<Rightarrow> bool" where
  "valid_heap h \<longleftrightarrow> h \<noteq> [] \<and> list_all (\<lambda>t. list_all (\<lambda>kc. snd kc < length h) (children t)) h"

text \<open>
  \<open>keeps_children h h'\<close>: every lookup in a child map that finds a child in \<open>h\<close> finds the
  same child in \<open>h'\<close>.
\<close>

definition keeps_children :: "Topic list \<Rightarrow> Topic list \<Rightarrow> bool" where
  "keeps_children h h' \<longleftrightarrow>
     length h \<le> length h' \<and>
     (\<forall>p<length h. \<forall>k c. map_of (children (h ! p)) k = Some c \<longrightarrow> map_of (children (h' ! p)) k = Some c)"

subsection \<open>The shape of the tree\<close>

text \<open>
  What the calls of the interface keep true of the store. \<open>node_ok h p\<close>: every entry of
  the child map of \<open>p\<close> points to an allocated topic that has \<open>p\<close> as its parent and the
  key as its name; no key occurs twice; the two wildcard pointers are what the child map
  holds under \<open>+\<close> and \<open>#\<close>; and the parent of \<open>p\<close> was allocated before \<open>p\<close>, the root
  being the only topic without parent.
\<close>

definition node_ok :: "Topic list \<Rightarrow> tptr \<Rightarrow> bool" where
  "node_ok h p \<longleftrightarrow>
     list_all (\<lambda>kc. snd kc < length h \<and> parent (h ! snd kc) = Some p \<and> name (h ! snd kc) = fst kc)
       (children (h ! p))
     \<and> distinct (map fst (children (h ! p)))
     \<and> wildcardChild (h ! p) = map_of (children (h ! p)) ''+''
     \<and> terminatingWildcardChild (h ! p) = map_of (children (h ! p)) ''#''
     \<and> (case parent (h ! p) of None \<Rightarrow> p = root | Some q \<Rightarrow> q < p)"

definition tree_ok :: "Topic list \<Rightarrow> bool" where
  "tree_ok h \<longleftrightarrow> h \<noteq> [] \<and> list_all (node_ok h) [0..<length h]"

text \<open>
  \<open>trimmed h\<close>: no child map holds a topic that \<open>trimTree\<close> would remove, i.e. one without
  subscriber, child and wildcard child. \<open>trimmed_except x h\<close> allows it for the topic \<open>x\<close>.
\<close>

definition trimmed_except :: "tptr \<Rightarrow> Topic list \<Rightarrow> bool" where
  "trimmed_except x h \<longleftrightarrow>
     list_all (\<lambda>t. list_all (\<lambda>kc. snd kc = x \<or> \<not> is_unused (h ! snd kc)) (children t)) h"

definition trimmed :: "Topic list \<Rightarrow> bool" where
  "trimmed h \<longleftrightarrow> list_all (\<lambda>t. list_all (\<lambda>kc. \<not> is_unused (h ! snd kc)) (children t)) h"

text \<open>A topic without what \<open>publish\<close> and \<open>drain\<close> write: its messages and its flag.\<close>

definition skeleton :: "Topic \<Rightarrow> Topic" where
  "skeleton t = t\<lparr>messages := [], triggered := False\<rparr>"

text \<open>
  The invariant of the tree: the store has the shape above and is trimmed; the
  \<open>subscriptions\<close> of every subscriber hold allocated topics other than the root; every
  sequence id in a \<open>messages\<close> map is below \<open>messageId\<close>; and the triggered topics are
  allocated and are the topics in \<open>triggeredTopics\<close>.
\<close>

definition well_formed :: "TopicTree \<Rightarrow> bool" where
  "well_formed s \<longleftrightarrow>
     tree_ok (heap s) \<and> trimmed (heap s)
     \<and> (\<forall>x. \<forall>t\<in>set (subscriptions s x). t \<noteq> root \<and> t < length (heap s))
     \<and> (\<forall>t<length (heap s). \<forall>km\<in>set (messages (heap s ! t)). fst km < messageId s)
     \<and> (\<forall>t<length (heap s). triggered (heap s ! t) \<longrightarrow> t \<in> set (triggeredTopics s))
     \<and> (\<forall>t\<in>set (triggeredTopics s). t < length (heap s))"

text \<open>
  What a walk of \<open>publish\<close> with message \<open>M\<close> changes: it stores \<open>M\<close> under the current
  \<open>messageId\<close> on some topics, triggers topics and appends them to \<open>triggeredTopics\<close>.
\<close>

definition publish_rel :: "string \<Rightarrow> TopicTree \<Rightarrow> TopicTree \<Rightarrow> bool" where
  "publish_rel M s s' \<longleftrightarrow>
     map skeleton (heap s') = map skeleton (heap s) \<and> messageId s' = messageId s
     \<and> subscriptions s' = subscriptions s
     \<and> set (triggeredTopics s) \<subseteq> set (triggeredTopics s')
     \<and> (\<forall>t<length (heap s).
           (triggered (heap s ! t) \<longrightarrow> triggered (heap s' ! t))
         \<and> (triggered (heap s' ! t) \<longrightarrow> triggered (heap s ! t) \<or> t \<in> set (triggeredTopics s'))
         \<and> (messages (heap s' ! t) = messages (heap s ! t)
            \<or> messages (heap s' ! t) = map_assign (messageId s) M (messages (heap s ! t))))"

text \<open>
  What \<open>unsubscribeAll\<close> changes: subscriber sets and child maps shrink, and an entry
  leaves the child map of \<open>p\<close> only when a topic with this parent and the name of the entry
  is unused.
\<close>

definition unsub_rel :: "Topic list \<Rightarrow> Topic list \<Rightarrow> bool" where
  "unsub_rel h h' \<longleftrightarrow>
     length h' = length h \<and>
     (\<forall>p<length h.
        name (h' ! p) = name (h ! p) \<and> parent (h' ! p) = parent (h ! p)
      \<and> messages (h' ! p) = messages (h ! p) \<and> triggered (h' ! p) = triggered (h ! p)
      \<and> set (subs (h' ! p)) \<subseteq> set (subs (h ! p))
      \<and> set (children (h' ! p)) \<subseteq> set (children (h ! p))
      \<and> (\<forall>kc\<in>set (children (h ! p)) - set (children (h' ! p)).
            \<exists>u<length h. is_unused (h' ! u) \<and> parent (h' ! u) = Some p \<and> name (h' ! u) = fst kc))"

text \<open>
  The topic of a pattern: the topic that \<open>subscribe\<close> walks to, when the walk finds every
  segment of the pattern and allocates nothing. A subscriber is subscribed to the pattern
  when it is in the subscriber set of this topic.
\<close>

definition topic_of :: "string \<Rightarrow> Topic list \<Rightarrow> tptr option" where
  "topic_of pattern h =
     (case subscribe_walk root (Some pattern) h of
        (t, h') \<Rightarrow> if length h' = length h then Some t else None)"

subsection \<open>What the specification counts\<close>

text \<open>
  The number of payloads that one drain constructed, and the number of different sets of
  triggered topics that its calls of \<open>cb\<close> were made for.
\<close>

definition constructions :: "delivery list \<Rightarrow> nat" where
  "constructions log = length (filter built log)"

definition distinct_subsets :: "delivery list \<Rightarrow> nat" where
  "distinct_subsets log = card (set (map matched log))"

text \<open>The number of cursors that are not at their end.\<close>

definition live :: "'a list list \<Rightarrow> nat" where
  "live cs = length (filter (\<lambda>c. c \<noteq> []) cs)"

subsection \<open>The merge of drain\<close>

text \<open>
  What one pass of the inner loop does to one cursor: \<open>hit m c\<close> says that the cursor is
  not at its end and points to \<open>m\<close>; \<open>advance m c\<close> is the cursor after the pass.
\<close>

definition hit :: "sptr \<Rightarrow> sptr list \<Rightarrow> bool" where
  "hit m c = (case c of [] \<Rightarrow> False | x # _ \<Rightarrow> x = m)"

definition advance :: "sptr \<Rightarrow> sptr list \<Rightarrow> sptr list" where
  "advance m c = (case c of [] \<Rightarrow> [] | x # c' \<Rightarrow> if x = m then c' else c)"

text \<open>The elements of a list that a list of flags selects.\<close>

definition sel :: "'a list \<Rightarrow> bool list \<Rightarrow> 'a list" where
  "sel xs bs = map fst (filter snd (zip xs bs))"

text \<open>
  The value of \<open>intersection\<close> for the indices from \<open>i\<close> on whose cursors are hit, as
  long as all indices are below 32.
\<close>

fun mask_of :: "nat \<Rightarrow> bool list \<Rightarrow> 64 word" where
  "mask_of i [] = 0"
| "mask_of i (b # bs) = (if b then scast (push_bit i (1 :: 32 word)) else 0) OR mask_of (Suc i) bs"

text \<open>
  \<open>nextMin\<close> after the cursors of a list have been looked at: the least first element,
  or the start value.
\<close>

definition lower :: "sptr list \<Rightarrow> sptr \<Rightarrow> sptr" where
  "lower c nm = (case c of [] \<Rightarrow> nm | x # _ \<Rightarrow> if nm > x then x else nm)"

definition lowest :: "sptr list list \<Rightarrow> sptr \<Rightarrow> sptr" where
  "lowest cs nm = fold lower cs nm"

text \<open>
  The cursors of a \<open>std::set\<close> are strictly ascending, and no subscriber has the address
  \<open>UINTPTR_MAX\<close>, the start value of \<open>min\<close> and \<open>nextMin\<close>.
\<close>

definition cursors_ok :: "sptr list list \<Rightarrow> bool" where
  "cursors_ok cs \<longleftrightarrow> list_all (\<lambda>c. sorted_wrt (<) c \<and> UINTPTR_MAX \<notin> set c) cs"

definition members :: "sptr list list \<Rightarrow> sptr set" where
  "members cs = \<Union> (set ` set cs)"

text \<open>
  Every payload in \<open>intersectionCache\<close> is the payload of the set of topics that its key
  stands for.
\<close>

definition cache_ok :: "Topic list \<Rightarrow> tptr list \<Rightarrow> (64 word \<Rightarrow> string) \<Rightarrow> bool" where
  "cache_ok h tts cache \<longleftrightarrow>
     (\<forall>bs. length bs = length tts \<longrightarrow> cache (mask_of 0 bs) \<noteq> [] \<longrightarrow>
        cache (mask_of 0 bs) = build_payload (map (\<lambda>t. messages (h ! t)) (sel tts bs)))"

subsection \<open>The payload, in the words of the specification\<close>

text \<open>
  The sequence ids of some \<open>messages\<close> maps in ascending order, each once; and the
  concatenation of the messages in this order, where an id that several maps hold stands
  for the message of the first of them.
\<close>

definition merged_ids :: "(int \<times> string) list list \<Rightarrow> int list" where
  "merged_ids ms = sorted_list_of_set (\<Union>m\<in>set ms. fst ` set m)"

definition merged_payload :: "(int \<times> string) list list \<Rightarrow> string" where
  "merged_payload ms = concat (map (\<lambda>k. the (map_of (concat ms) k)) (merged_ids ms))"

text \<open>
  The key of a set of triggered topics; every non-empty payload that was passed to \<open>cb\<close>
  is in the cache under the key of its topics; and a payload that was passed to \<open>cb\<close> is
  not constructed again for the same topics, unless it is empty.
\<close>

definition pattern_key :: "tptr list \<Rightarrow> tptr list \<Rightarrow> 64 word" where
  "pattern_key tts ms = mask_of 0 (map (\<lambda>t. t \<in> set ms) tts)"

definition log_cache_ok :: "tptr list \<Rightarrow> (64 word \<Rightarrow> string) \<Rightarrow> delivery list \<Rightarrow> bool" where
  "log_cache_ok tts cache log \<longleftrightarrow>
     (\<forall>d\<in>set log. payload d \<noteq> [] \<longrightarrow> cache (pattern_key tts (matched d)) \<noteq> [])"

definition reuse :: "delivery list \<Rightarrow> bool" where
  "reuse log \<longleftrightarrow>
     (\<forall>j<length log. \<forall>i<j.
        matched (log ! i) = matched (log ! j) \<and> payload (log ! i) \<noteq> [] \<longrightarrow> \<not> built (log ! j))"

text \<open>
  The subscribers of the triggered topics, and the triggered topics that a subscriber
  belongs to.
\<close>

definition touched :: "TopicTree \<Rightarrow> sptr set" where
  "touched s = (\<Union>t\<in>set (triggeredTopics s). set (subs (heap s ! t)))"

definition nodes_of :: "TopicTree \<Rightarrow> sptr \<Rightarrow> tptr list" where
  "nodes_of s x = filter (\<lambda>t. x \<in> set (subs (heap s ! t))) (triggeredTopics s)"

text \<open>
  A batch as \<open>publish\<close> leaves it: at most 32 different triggered topics (so that every
  shift in \<open>drain\<close> is defined), each with a subscriber, and \<open>min\<close> is the lowest
  first subscriber of the triggered topics (the comment at its update says
  "Keep track of lowest subscriber").
\<close>

definition batch_ok :: "TopicTree \<Rightarrow> bool" where
  "batch_ok s \<longleftrightarrow>
     length (triggeredTopics s) \<le> 32 \<and> distinct (triggeredTopics s) \<and>
     list_all (\<lambda>t. subs (heap s ! t) \<noteq> [] \<and> sorted_wrt (<) (subs (heap s ! t))
                 \<and> UINTPTR_MAX \<notin> set (subs (heap s ! t))) (triggeredTopics s) \<and>
     min_sub s = lowest (map (\<lambda>t. subs (heap s ! t)) (triggeredTopics s)) UINTPTR_MAX"

text \<open>
  Two reachable batches: one with two triggered topics that share a subscriber, one with two
  triggered topics of two subscribers each, the second with an empty message.
\<close>

definition example_merge :: TopicTree where
  "example_merge =
     (case run [Subscribe ''a/b'' 16, Subscribe ''a/#'' 16, Subscribe ''a/#'' 32,
                Publish ''a/b'' ''M1'', Publish ''a/c'' ''M2''] ([], init) of
        Some (Inr (l, s)) \<Rightarrow> s
      | _ \<Rightarrow> init)"

definition example_reuse :: TopicTree where
  "example_reuse =
     (case run [Subscribe ''t'' 16, Subscribe ''t'' 32, Subscribe ''u'' 48, Subscribe ''u'' 64,
                Publish ''t'' ''M'', Publish ''u'' []] ([], init) of
        Some (Inr (l, s)) \<Rightarrow> s
      | _ \<Rightarrow> init)"

text \<open>
  Two reachable trees: one with subscriber 16 on \<open>a/+\<close> and \<open>x/y\<close> and subscriber 32 on
  \<open>a/b\<close>, one with subscriber 16 on \<open>a/#\<close> and subscriber 32 on \<open>a\<close>.
\<close>

definition example_tree :: TopicTree where
  "example_tree =
     (case run [Subscribe ''a/b'' 32, Subscribe ''a/+'' 16, Subscribe ''x/y'' 16] ([], init) of
        Some (Inr (l, s)) \<Rightarrow> s
      | _ \<Rightarrow> init)"

definition example_hash :: TopicTree where
  "example_hash =
     (case run [Subscribe ''a/#'' 16, Subscribe ''a'' 32] ([], init) of
        Some (Inr (l, s)) \<Rightarrow> s
      | _ \<Rightarrow> init)"

section \<open>Evaluating the model\<close>

lemma drain_loop_done: "drain_loop h tts cs 0 m cache log = Some (Inr (m, log))"
  by (subst drain_loop.simps) simp

lemma drain_loop_step:
  "ne \<noteq> 0 \<Longrightarrow> drain_loop h tts cs ne m cache log =
     (case drain_iter h tts cs ne m cache of
        Inl f \<Rightarrow> Some (Inl f)
      | Inr (cs', ne', m', cache', d) \<Rightarrow> drain_loop h tts cs' ne' m' cache' (log @ [d]))"
  by (subst drain_loop.simps) simp

lemma store_trigger_eval:
  "store_trigger t message s =
     (let h = (heap s)[t := (heap s ! t)\<lparr>messages := map_assign (messageId s) message (messages (heap s ! t))\<rparr>]
      in if triggered (h ! t) then Inr (s\<lparr>heap := h\<rparr>)
         else if 64 \<le> length (triggeredTopics s) then Inl WritePastTriggeredTopics
         else (case subs (h ! t) of
                 [] \<Rightarrow> Inl DerefEndOfEmptySet
               | x # _ \<Rightarrow>
                   Inr (s\<lparr>heap := h[t := (h ! t)\<lparr>triggered := True\<rparr>],
                          triggeredTopics := triggeredTopics s @ [t],
                          min_sub := min x (min_sub s)\<rparr>)))"
  by (auto simp: store_trigger_def Let_def min_def split: list.splits)

lemma min_UINTPTR_MAX: "min x UINTPTR_MAX = x"
  by (simp add: UINTPTR_MAX_def min_def)

lemmas tree_defs =
  subscribe_def publish_def store_trigger_eval min_UINTPTR_MAX init_def segment_def after_slash_def root_def
  add_child_def new_Topic_def

lemmas drain_defs =
  drain_def drain_loop_done drain_loop_step drain_iter_def scan_step_def shl_int_def
  build_payload_def insert_range_def clear_topic_def Let_def

lemmas observe_defs = the_log_def delivered_def topic_after_def batch_after_def

lemmas weak_case_cong =
  list.case_cong_weak sum.case_cong_weak option.case_cong_weak prod.case_cong_weak

lemmas trim_defs = unsubscribeAll_def trimTree.simps is_unused_def detach_def map_erase_def

section \<open>When the outer loop of drain ends\<close>

text \<open>
  \<open>nonEmpty\<close> is decremented exactly when a cursor reaches its end, so the difference
  between \<open>nonEmpty\<close> and the number of cursors not at their end never changes. The loop
  starts with \<open>nonEmpty = numTriggeredTopics\<close>: when a triggered topic has no subscriber,
  the difference is positive, \<open>nonEmpty\<close> never reaches 0 and the loop does not end.
\<close>

lemma live_simps [simp]: "live [] = 0" "live (c # cs) = (if c = [] then live cs else Suc (live cs))"
  by (simp_all add: live_def)

lemma scan_step_nonEmpty:
  "scan_step m i t c a = Inr (c', a') \<Longrightarrow>
     nonEmpty a' - int (live [c']) = nonEmpty a - int (live [c])"
  by (auto simp: scan_step_def Let_def split: list.splits sum.splits if_splits)

lemma scan_length:
  "length tts = length cs \<Longrightarrow> scan m i tts cs a = Inr (cs', a') \<Longrightarrow> length cs' = length cs"
  by (induction m i tts cs a arbitrary: cs' a' rule: scan.induct)
     (auto split: sum.splits)

lemma scan_nonEmpty:
  "length tts = length cs \<Longrightarrow> scan m i tts cs a = Inr (cs', a') \<Longrightarrow>
     nonEmpty a' - int (live cs') = nonEmpty a - int (live cs)"
proof (induction m i tts cs a arbitrary: cs' a' rule: scan.induct)
  case (1 m i t ts c cs a)
  then obtain c1 a1 cs1 where st: "scan_step m i t c a = Inr (c1, a1)"
    and rc: "scan m (Suc i) ts cs a1 = Inr (cs1, a')" and cs': "cs' = c1 # cs1"
    by (auto split: sum.splits)
  from "1.IH"[OF st refl _ rc] "1.prems"(1)
  have "nonEmpty a' - int (live cs1) = nonEmpty a1 - int (live cs)" by simp
  with scan_step_nonEmpty[OF st] show ?case
    by (simp add: cs' split: if_splits)
qed simp_all

lemma scan_step_no_fault: "i < 32 \<Longrightarrow> \<exists>r. scan_step m i t c a = Inr r"
  by (auto simp: scan_step_def Let_def shl_int_def split: list.splits)

lemma scan_no_fault:
  "i + length cs \<le> 32 \<Longrightarrow> \<exists>r. scan m i tts cs a = Inr r"
proof (induction m i tts cs a rule: scan.induct)
  case (1 m i t ts c cs a)
  from "1.prems" have "i < 32" by simp
  from scan_step_no_fault[OF this] obtain c1 a1 where st: "scan_step m i t c a = Inr (c1, a1)"
    by fastforce
  from "1.IH"[OF st refl] "1.prems" obtain r where "scan m (Suc i) ts cs a1 = Inr r"
    by auto
  with st show ?case by (cases r) simp
qed simp_all

lemma drain_iter_nonEmpty:
  assumes "length tts = length cs"
    and "drain_iter h tts cs ne m cache = Inr (cs', ne', m', cache', d)"
  shows "length cs' = length cs \<and> ne' - int (live cs') = ne - int (live cs)"
proof -
  from assms(2) obtain a where
    sc: "scan m 0 tts cs \<lparr>nextMin = UINTPTR_MAX, perSubscriberIntersectingTopicMessages = [],
          intersection = 0, nonEmpty = ne\<rparr> = Inr (cs', a)" and ne': "ne' = nonEmpty a"
    by (auto simp: drain_iter_def Let_def split: sum.splits if_splits)
  from scan_length[OF assms(1) sc] scan_nonEmpty[OF assms(1) sc] ne'
  show ?thesis by simp
qed

lemma drain_iter_no_fault:
  assumes "length cs \<le> 32"
  shows "\<exists>r. drain_iter h tts cs ne m cache = Inr r"
proof -
  from assms have "0 + length cs \<le> 32" by simp
  from scan_no_fault[OF this] obtain r where
    "scan m 0 tts cs \<lparr>nextMin = UINTPTR_MAX, perSubscriberIntersectingTopicMessages = [],
          intersection = 0, nonEmpty = ne\<rparr> = Inr r"
    by blast
  then show ?thesis
    by (cases r) (simp add: drain_iter_def Let_def)
qed

lemma drain_loop_returns_only_balanced:
  assumes "drain_loop h tts cs ne m cache log = Some y"
    and "length tts = length cs" and "int (live cs) < ne"
  shows "\<exists>f. y = Inl f"
  using assms
proof (induction arbitrary: rule: drain_loop.raw_induct[rotated 1, consumes 1])
  case (1 drain_loop h tts cs ne m cache log y)
  show ?case
  proof (cases "drain_iter h tts cs ne m cache")
    case (Inl f)
    with 1 show ?thesis by (auto split: if_splits)
  next
    case (Inr r)
    obtain cs' ne' m' cache' d where r: "r = (cs', ne', m', cache', d)" by (cases r) auto
    from drain_iter_nonEmpty[OF "1.prems"(1) Inr[unfolded r]] "1.prems"
    have "length tts = length cs'" "int (live cs') < ne'" by auto
    moreover from 1 Inr r have "drain_loop h tts cs' ne' m' cache' (log @ [d]) = Some y"
      by (auto split: if_splits)
    ultimately show ?thesis using "1.IH" by blast
  qed
qed

lemma drain_loop_no_fault:
  assumes "drain_loop h tts cs ne m cache log = Some y"
    and "length tts = length cs" and "length cs \<le> 32"
  shows "\<exists>r. y = Inr r"
  using assms
proof (induction arbitrary: rule: drain_loop.raw_induct[rotated 1, consumes 1])
  case (1 drain_loop h tts cs ne m cache log y)
  show ?case
  proof (cases "ne = 0")
    case True
    with "1.hyps" have "y = Inr (m, log)" by simp
    then show ?thesis by blast
  next
    case False
    from drain_iter_no_fault[OF "1.prems"(2)] obtain cs' ne' m' cache' d where
      it: "drain_iter h tts cs ne m cache = Inr (cs', ne', m', cache', d)"
      by (metis prod_cases5)
    from drain_iter_nonEmpty[OF "1.prems"(1) it] "1.prems"
    have "length tts = length cs'" "length cs' \<le> 32" by auto
    moreover from 1 it False have "drain_loop h tts cs' ne' m' cache' (log @ [d]) = Some y"
      by simp
    ultimately show ?thesis using "1.IH" by blast
  qed
qed

lemma drain_loop_diverges:
  assumes "length tts = length cs" and "length cs \<le> 32" and "int (live cs) < ne"
  shows "drain_loop h tts cs ne m cache log = None"
proof (cases "drain_loop h tts cs ne m cache log")
  case (Some y)
  from drain_loop_returns_only_balanced[OF Some assms(1,3)]
    drain_loop_no_fault[OF Some assms(1,2)]
  show ?thesis by auto
qed simp

lemma run_append:
  "run (xs @ ys) ls =
     (case run xs ls of None \<Rightarrow> None | Some (Inl f) \<Rightarrow> Some (Inl f) | Some (Inr ls') \<Rightarrow> run ys ls')"
  by (induction xs arbitrary: ls) (auto split: option.splits sum.splits)

lemma scan_shift_fault:
  "length tts = length cs \<Longrightarrow> j < length cs \<Longrightarrow> 32 \<le> i + j \<Longrightarrow> cs ! j = m # c'
     \<Longrightarrow> scan m i tts cs a = Inl ShiftCountTooLarge"
proof (induction m i tts cs a arbitrary: j rule: scan.induct)
  case (1 m i t ts c cs a)
  show ?case
  proof (cases "scan_step m i t c a")
    case (Inl f)
    then have "f = ShiftCountTooLarge"
      by (auto simp: scan_step_def shl_int_def Let_def split: list.splits if_splits)
    with Inl show ?thesis by simp
  next
    case (Inr r)
    obtain c1 a1 where r: "r = (c1, a1)" by (cases r)
    have "j \<noteq> 0"
    proof
      assume "j = 0"
      with "1.prems" have "c = m # c'" "32 \<le> i" by auto
      then have "scan_step m i t c a = Inl ShiftCountTooLarge"
        by (simp add: scan_step_def shl_int_def)
      with Inr show False by simp
    qed
    then obtain j' where j: "j = Suc j'" by (cases j) auto
    from "1.IH"[OF Inr[unfolded r] refl, of j'] "1.prems" j
    have "scan m (Suc i) ts cs a1 = Inl ShiftCountTooLarge" by simp
    with Inr r show ?thesis by simp
  qed
qed simp_all

lemma drain_shift_fault:
  assumes "j < length (triggeredTopics s)" and "32 \<le> j"
    and "subs (heap s ! (triggeredTopics s ! j)) = min_sub s # c'"
  shows "drain s = Some (Inl ShiftCountTooLarge)"
proof -
  let ?cs = "map (\<lambda>t. subs (heap s ! t)) (triggeredTopics s)"
  have "scan (min_sub s) 0 (triggeredTopics s) ?cs a = Inl ShiftCountTooLarge" for a
    using assms by (intro scan_shift_fault[where j = j and c' = c']) simp_all
  then have "drain_iter (heap s) (triggeredTopics s) ?cs ne (min_sub s) cache = Inl ShiftCountTooLarge"
    for ne cache
    by (simp add: drain_iter_def)
  moreover from assms have "triggeredTopics s \<noteq> []" by auto
  ultimately show ?thesis
    by (simp add: drain_def drain_loop_step)
qed

lemma length_clear_topic [simp]: "length (clear_topic a h) = length h"
  by (simp add: clear_topic_def)

lemma clear_topic_at:
  "t < length h \<Longrightarrow> messages (clear_topic t h ! t) = [] \<and> \<not> triggered (clear_topic t h ! t)"
  by (simp add: clear_topic_def)

lemma clear_topic_keeps:
  "t < length h \<Longrightarrow> messages (h ! t) = [] \<and> \<not> triggered (h ! t) \<Longrightarrow>
     messages (clear_topic a h ! t) = [] \<and> \<not> triggered (clear_topic a h ! t)"
  by (cases "a = t") (simp_all add: clear_topic_def)

lemma fold_clear_topic:
  "t < length h \<Longrightarrow> t \<in> set ts \<or> (messages (h ! t) = [] \<and> \<not> triggered (h ! t)) \<Longrightarrow>
     messages (fold clear_topic ts h ! t) = [] \<and> \<not> triggered (fold clear_topic ts h ! t)"
proof (induction ts arbitrary: h)
  case Nil
  then show ?case by simp
next
  case (Cons a ts)
  have "t \<in> set ts \<or> (messages (clear_topic a h ! t) = [] \<and> \<not> triggered (clear_topic a h ! t))"
  proof (cases "t = a")
    case True
    with Cons.prems(1) clear_topic_at[of t h] show ?thesis by simp
  next
    case False
    with Cons.prems clear_topic_keeps[of t h a] show ?thesis by auto
  qed
  with Cons.IH[of "clear_topic a h"] Cons.prems(1) show ?case by simp
qed

lemma example_batch_reached:
  "run [Subscribe ''a/#'' 16, Publish ''a/b'' ''M''] ([], init) = Some (Inr ([], example_batch))"
  by (simp add: tree_defs example_batch_def numeral_2_eq_2)

section \<open>Subscribing again\<close>

lemma valid_heapD:
  "valid_heap h \<Longrightarrow> p < length h \<Longrightarrow> map_of (children (h ! p)) k = Some c \<Longrightarrow> c < length h"
  using nth_mem[of p h] by (fastforce simp: valid_heap_def list_all_iff dest!: map_of_SomeD)

lemma map_of_map_insert:
  "map_of m k = None \<Longrightarrow> map_of (map_insert k v m) = (map_of m)(k \<mapsto> v)"
  by (induction m) (auto simp: fun_eq_iff)

lemma set_map_insert: "set (map_insert k v m) \<subseteq> insert (k, v) (set m)"
  by (induction m) (auto split: if_splits)

lemma set_insert_idem: "set_insert x (set_insert x xs) = set_insert x xs"
  by (induction xs) auto

lemma keeps_children_refl: "keeps_children h h"
  by (simp add: keeps_children_def)

lemma keeps_children_trans: "keeps_children h1 h2 \<Longrightarrow> keeps_children h2 h3 \<Longrightarrow> keeps_children h1 h3"
  by (fastforce simp: keeps_children_def)

lemma subscribe_walk_props:
  assumes "subscribe_walk it r h = (t, h')" and "valid_heap h" and "it < length h"
  shows "valid_heap h' \<and> t < length h' \<and> keeps_children h h'
    \<and> (\<forall>h''. keeps_children h' h'' \<longrightarrow> subscribe_walk it r h'' = (t, h''))"
  using assms
proof (induction it r h arbitrary: t h' rule: subscribe_walk.induct)
  case (1 iterator h)
  then show ?case by (simp add: keeps_children_refl)
next
  case (2 iterator r h)
  show ?case
  proof (cases "map_of (children (h ! iterator)) (segment r)")
    case (Some c)
    with "2.prems" have w: "subscribe_walk c (after_slash r) h = (t, h')" by simp
    from valid_heapD[OF "2.prems"(2,3) Some] have c: "c < length h" .
    from "2.IH"(2)[OF Some w "2.prems"(2) c]
    have ih: "valid_heap h'" "t < length h'" "keeps_children h h'"
      "\<And>h''. keeps_children h' h'' \<Longrightarrow> subscribe_walk c (after_slash r) h'' = (t, h'')"
      by auto
    have "subscribe_walk iterator (Some r) h'' = (t, h'')" if k: "keeps_children h' h''" for h''
    proof -
      from keeps_children_trans[OF ih(3) k] "2.prems"(3) Some
      have "map_of (children (h'' ! iterator)) (segment r) = Some c"
        by (simp add: keeps_children_def)
      with ih(4)[OF k] show ?thesis by simp
    qed
    with ih show ?thesis by simp
  next
    case None
    let ?n = "length h"
    let ?h1 = "h[iterator := add_child (segment r) ?n (h ! iterator)]
               @ [new_Topic\<lparr>name := segment r, parent := Some iterator\<rparr>]"
    from None "2.prems" have w: "subscribe_walk ?n (after_slash r) ?h1 = (t, h')" by simp
    have ch: "children (?h1 ! p) = (if p = iterator then map_insert (segment r) ?n (children (h ! iterator))
        else if p = ?n then [] else children (h ! p))" if "p \<le> ?n" for p
      using that "2.prems"(3)
      by (auto simp: nth_append add_child_def new_Topic_def)
    have v1: "valid_heap ?h1"
      unfolding valid_heap_def list_all_length
    proof (intro conjI allI impI)
      show "?h1 \<noteq> []" by simp
    next
      fix p i assume p: "p < length ?h1" and i: "i < length (children (?h1 ! p))"
      then have pn: "p \<le> ?n" by simp
      show "snd (children (?h1 ! p) ! i) < length ?h1"
      proof (cases "p = iterator")
        case True
        with i ch[OF pn] have "children (?h1 ! p) ! i \<in> set (map_insert (segment r) ?n (children (h ! iterator)))"
          by (metis nth_mem)
        with set_map_insert[of "segment r" ?n "children (h ! iterator)"]
        have "children (?h1 ! p) ! i = (segment r, ?n) \<or> children (?h1 ! p) ! i \<in> set (children (h ! iterator))"
          by auto
        then show ?thesis
        proof
          assume "children (?h1 ! p) ! i = (segment r, ?n)"
          then show ?thesis by simp
        next
          assume "children (?h1 ! p) ! i \<in> set (children (h ! iterator))"
          with "2.prems"(2,3) nth_mem[of iterator h] have "snd (children (?h1 ! p) ! i) < length h"
            by (auto simp: valid_heap_def list_all_iff)
          then show ?thesis by simp
        qed
      next
        case False
        show ?thesis
        proof (cases "p = ?n")
          case True
          with i ch[OF pn] False show ?thesis by simp
        next
          case pf: False
          with pn have pl: "p < length h" by simp
          with i ch[OF pn] False pf have "children (?h1 ! p) ! i \<in> set (children (h ! p))"
            by (metis nth_mem)
          with "2.prems"(2) pl nth_mem[of p h] have "snd (children (?h1 ! p) ! i) < length h"
            by (auto simp: valid_heap_def list_all_iff)
          then show ?thesis by simp
        qed
      qed
    qed
    have k1: "keeps_children h ?h1"
      unfolding keeps_children_def
    proof (intro conjI allI impI)
      show "length h \<le> length ?h1" by simp
    next
      fix p k c assume p: "p < length h" and l: "map_of (children (h ! p)) k = Some c"
      show "map_of (children (?h1 ! p)) k = Some c"
      proof (cases "p = iterator")
        case True
        with l None have "k \<noteq> segment r" by auto
        with True l ch[of p] p map_of_map_insert[OF None, of ?n] show ?thesis by simp
      next
        case False
        with l ch[of p] p show ?thesis by simp
      qed
    qed
    from "2.IH"(1)[OF None w v1]
    have ih: "valid_heap h'" "t < length h'" "keeps_children ?h1 h'"
      "\<And>h''. keeps_children h' h'' \<Longrightarrow> subscribe_walk ?n (after_slash r) h'' = (t, h'')"
      by auto
    have look: "map_of (children (?h1 ! iterator)) (segment r) = Some ?n"
      using ch[of iterator] "2.prems"(3) map_of_map_insert[OF None, of ?n] by simp
    have "subscribe_walk iterator (Some r) h'' = (t, h'')" if k: "keeps_children h' h''" for h''
    proof -
      from keeps_children_trans[OF ih(3) k] "2.prems"(3) look
      have "map_of (children (h'' ! iterator)) (segment r) = Some ?n"
        by (simp add: keeps_children_def)
      with ih(4)[OF k] show ?thesis by simp
    qed
    with ih keeps_children_trans[OF k1 ih(3)] show ?thesis by simp
  qed
qed

lemma set_insert_member: "x \<in> set (set_insert x xs)"
  by (induction xs) auto

lemma subscribe_result:
  assumes "subscribe_walk root (Some topic) (heap s) = (t, h')"
  shows "subscribe topic x s =
      s\<lparr>heap := h'[t := (h' ! t)\<lparr>subs := set_insert x (subs (h' ! t))\<rparr>],
        subscriptions := (subscriptions s)(x := subscriptions s x @ [t])\<rparr>"
  unfolding subscribe_def assms by simp

lemma valid_heap_init: "valid_heap (heap init)"
  by (simp add: valid_heap_def init_def new_Topic_def)

lemma valid_heap_subscribe: "valid_heap (heap s) \<Longrightarrow> valid_heap (heap (subscribe topic x s))"
proof -
  assume v: "valid_heap (heap s)"
  obtain t h' where w: "subscribe_walk root (Some topic) (heap s) = (t, h')"
    by (cases "subscribe_walk root (Some topic) (heap s)")
  from v have "root < length (heap s)" by (simp add: valid_heap_def root_def)
  from subscribe_walk_props[OF w v this] have "valid_heap h'" by simp
  moreover have "children (h'[t := (h' ! t)\<lparr>subs := set_insert x (subs (h' ! t))\<rparr>] ! n) = children (h' ! n)"
    if "n < length h'" for n
    using that by (cases "n = t") simp_all
  ultimately have "valid_heap (h'[t := (h' ! t)\<lparr>subs := set_insert x (subs (h' ! t))\<rparr>])"
    by (simp add: valid_heap_def list_all_length)
  then show ?thesis unfolding subscribe_def w by simp
qed

section \<open>The merge of drain\<close>

lemma sel_simps [simp]:
  "sel [] bs = []" "sel xs [] = []"
  "sel (x # xs) (b # bs) = (if b then x # sel xs bs else sel xs bs)"
  by (simp_all add: sel_def)

lemma scan_step_spec:
  "i < 32 \<Longrightarrow> scan_step m i t c a =
     Inr (advance m c,
       a\<lparr>intersection := intersection a OR (if hit m c then scast (push_bit i (1 :: 32 word)) else 0),
         perSubscriberIntersectingTopicMessages :=
           perSubscriberIntersectingTopicMessages a @ (if hit m c then [t] else []),
         nonEmpty := nonEmpty a - (if hit m c \<and> advance m c = [] then 1 else 0),
         nextMin := lower (advance m c) (nextMin a)\<rparr>)"
  by (auto simp: scan_step_def hit_def advance_def lower_def shl_int_def Let_def split: list.splits)

lemma scan_spec:
  "length tts = length cs \<Longrightarrow> i + length cs \<le> 32 \<Longrightarrow>
   scan m i tts cs a =
     Inr (map (advance m) cs,
       a\<lparr>intersection := intersection a OR mask_of i (map (hit m) cs),
         perSubscriberIntersectingTopicMessages :=
           perSubscriberIntersectingTopicMessages a @ sel tts (map (hit m) cs),
         nonEmpty := nonEmpty a - int (length (filter (\<lambda>c. hit m c \<and> advance m c = []) cs)),
         nextMin := lowest (map (advance m) cs) (nextMin a)\<rparr>)"
proof (induction m i tts cs a rule: scan.induct)
  case (1 m i t ts c cs a)
  from "1.prems" have i: "i < 32" by simp
  note st = scan_step_spec[OF i, of m t c a]
  from "1.IH"[OF st refl] "1.prems"
  show ?case
    by (simp add: st lowest_def or.assoc)
qed (simp_all add: lowest_def)

lemma bit_int_shift:
  "i < 32 \<Longrightarrow> j < 32 \<Longrightarrow> bit (scast (push_bit i (1 :: 32 word)) :: 64 word) j \<longleftrightarrow> j = i"
  by (auto simp: bit_simps)

lemma bit_int_shift_power:
  "i < 32 \<Longrightarrow> j < 32 \<Longrightarrow> bit (scast (2 ^ i :: 32 word) :: 64 word) j \<longleftrightarrow> j = i"
  using bit_int_shift[of i j] by simp

lemma bit_mask_of:
  "j < 32 \<Longrightarrow> i + length bs \<le> 32 \<Longrightarrow>
     bit (mask_of i bs) j \<longleftrightarrow> i \<le> j \<and> j - i < length bs \<and> bs ! (j - i)"
proof (induction bs arbitrary: i)
  case Nil
  then show ?case by simp
next
  case (Cons b bs)
  from Cons.prems have i: "i < 32" by simp
  from Cons.IH[of "Suc i"] Cons.prems
  have ih: "bit (mask_of (Suc i) bs) j \<longleftrightarrow> Suc i \<le> j \<and> j - Suc i < length bs \<and> bs ! (j - Suc i)"
    by simp
  show ?case
  proof (cases "j = i")
    case True
    with ih i Cons.prems(1) show ?thesis by (simp add: bit_or_iff bit_int_shift_power)
  next
    case False
    have "(b # bs) ! (j - i) = bs ! (j - Suc i)" if "i \<le> j"
    proof -
      from that False have "j - i = Suc (j - Suc i)" by simp
      then show ?thesis by simp
    qed
    with False ih i Cons.prems(1) show ?thesis
      by (auto simp: bit_or_iff bit_int_shift_power)
  qed
qed

lemma mask_of_inj:
  assumes "length bs = length bs'" and "length bs \<le> 32" and "mask_of 0 bs = mask_of 0 bs'"
  shows "bs = bs'"
proof (rule nth_equalityI)
  show "length bs = length bs'" by fact
next
  fix j assume j: "j < length bs"
  with assms(2) have j32: "j < 32" by simp
  from bit_mask_of[OF j32, of 0 bs] bit_mask_of[OF j32, of 0 bs'] assms j
  show "bs ! j = bs' ! j" by simp
qed

lemma lowest_le: "lowest cs nm \<le> nm"
proof (induction cs arbitrary: nm)
  case (Cons c cs)
  have "lower c nm \<le> nm" by (auto simp: lower_def split: list.splits)
  with Cons[of "lower c nm"] show ?case by (simp add: lowest_def)
qed (simp add: lowest_def)

lemma lowest_le_hd: "c \<in> set cs \<Longrightarrow> c \<noteq> [] \<Longrightarrow> lowest cs nm \<le> hd c"
proof (induction cs arbitrary: nm)
  case (Cons c' cs)
  show ?case
  proof (cases "c = c'")
    case True
    with Cons.prems have "lower c' nm \<le> hd c" by (auto simp: lower_def split: list.splits)
    with lowest_le[of cs "lower c' nm"] show ?thesis by (simp add: lowest_def)
  next
    case False
    with Cons show ?thesis by (simp add: lowest_def)
  qed
qed simp

lemma lowest_cases: "lowest cs nm = nm \<or> (\<exists>c\<in>set cs. c \<noteq> [] \<and> lowest cs nm = hd c)"
proof (induction cs arbitrary: nm)
  case (Cons c cs)
  have "lower c nm = nm \<or> (c \<noteq> [] \<and> lower c nm = hd c)"
    by (auto simp: lower_def split: list.splits)
  with Cons[of "lower c nm"] show ?case by (auto simp: lowest_def)
qed (simp add: lowest_def)

lemma sorted_hd_le: "sorted_wrt (<) (c :: sptr list) \<Longrightarrow> x \<in> set c \<Longrightarrow> hd c \<le> x"
  by (cases c) auto

lemma lowest_least:
  assumes "cursors_ok cs" and "x \<in> members cs"
  shows "lowest cs UINTPTR_MAX \<le> x"
proof -
  from assms(2) obtain c where c: "c \<in> set cs" "x \<in> set c" by (auto simp: members_def)
  then have "c \<noteq> []" by auto
  from lowest_le_hd[OF c(1) this] have "lowest cs UINTPTR_MAX \<le> hd c" .
  also from assms(1) c have "hd c \<le> x" by (auto simp: cursors_ok_def list_all_iff intro: sorted_hd_le)
  finally show ?thesis .
qed

lemma lowest_member:
  assumes "cursors_ok cs" and "members cs \<noteq> {}"
  shows "lowest cs UINTPTR_MAX \<in> members cs"
proof -
  from assms(2) obtain c x where c: "c \<in> set cs" "x \<in> set c" by (fastforce simp: members_def)
  then have ne: "c \<noteq> []" by auto
  then have "hd c \<in> set c" by simp
  with c assms(1) have "hd c \<noteq> UINTPTR_MAX"
    by (auto simp: cursors_ok_def list_all_iff)
  moreover have "hd c \<le> UINTPTR_MAX" by (simp add: UINTPTR_MAX_def)
  ultimately have "hd c < UINTPTR_MAX" by simp
  with lowest_le_hd[OF c(1) ne, of UINTPTR_MAX] have "lowest cs UINTPTR_MAX \<noteq> UINTPTR_MAX" by auto
  with lowest_cases[of cs UINTPTR_MAX] obtain c' where "c' \<in> set cs" "c' \<noteq> []" "lowest cs UINTPTR_MAX = hd c'"
    by auto
  then show ?thesis by (auto simp: members_def intro!: bexI[of _ c'])
qed

lemma lowest_empty: "members cs = {} \<Longrightarrow> lowest cs nm = nm"
  using lowest_cases[of cs nm] by (auto simp: members_def)

lemma hit_iff_member:
  assumes "sorted_wrt (<) c" and "\<forall>x\<in>set c. m \<le> x"
  shows "hit m c \<longleftrightarrow> m \<in> set c"
proof (cases c)
  case (Cons x c')
  with assms have "\<forall>y\<in>set c'. x < y" "m \<le> x" by auto
  with Cons show ?thesis by (auto simp: hit_def)
qed (simp add: hit_def)

lemma set_advance:
  assumes "sorted_wrt (<) c" and "\<forall>x\<in>set c. m \<le> x"
  shows "set (advance m c) = set c - {m}"
proof (cases c)
  case (Cons x c')
  with assms have "\<forall>y\<in>set c'. x < y" "m \<le> x" by auto
  with Cons show ?thesis by (auto simp: advance_def)
qed (simp add: advance_def)

lemma sorted_advance: "sorted_wrt (<) c \<Longrightarrow> sorted_wrt (<) (advance m c)"
  by (cases c) (auto simp: advance_def)

lemma length_advance: "length (advance m c) = (if hit m c then length c - 1 else length c)"
  by (cases c) (auto simp: advance_def hit_def)

lemma drain_iter_spec:
  assumes "length tts = length cs" and "length cs \<le> 32"
  shows "drain_iter h tts cs ne m cache =
     Inr (map (advance m) cs,
       ne - int (length (filter (\<lambda>c. hit m c \<and> advance m c = []) cs)),
       lowest (map (advance m) cs) UINTPTR_MAX,
       (if cache (mask_of 0 (map (hit m) cs)) = []
        then cache(mask_of 0 (map (hit m) cs) :=
               build_payload (map (\<lambda>t. messages (h ! t)) (sel tts (map (hit m) cs))))
        else cache),
       \<lparr>who = m,
        payload = (if cache (mask_of 0 (map (hit m) cs)) = []
                   then build_payload (map (\<lambda>t. messages (h ! t)) (sel tts (map (hit m) cs)))
                   else cache (mask_of 0 (map (hit m) cs))),
        built = (cache (mask_of 0 (map (hit m) cs)) = []),
        matched = sel tts (map (hit m) cs)\<rparr>)"
proof -
  from assms(2) have "0 + length cs \<le> 32" by simp
  from scan_spec[OF assms(1) this] show ?thesis
    by (simp add: drain_iter_def Let_def)
qed

lemma live_advance:
  "int (live cs) - int (length (filter (\<lambda>c. hit m c \<and> advance m c = []) cs)) =
     int (live (map (advance m) cs))"
proof (induction cs)
  case (Cons c cs)
  have "c = [] \<or> (hit m c \<and> advance m c = []) \<or> (c \<noteq> [] \<and> advance m c \<noteq> [])"
    by (cases c) (auto simp: hit_def advance_def)
  with Cons show ?case by (auto simp: advance_def hit_def)
qed simp

lemma live_0_iff: "live cs = 0 \<longleftrightarrow> members cs = {}"
  by (induction cs) (auto simp: members_def)

lemma cursors_ok_advance: "cursors_ok cs \<Longrightarrow> cursors_ok (map (advance m) cs)"
proof -
  have "set (advance m c) \<subseteq> set c" for c by (cases c) (auto simp: advance_def)
  then show "cursors_ok cs \<Longrightarrow> cursors_ok (map (advance m) cs)"
    by (auto simp: cursors_ok_def list_all_iff sorted_advance)
qed

lemma finite_members [simp]: "finite (members cs)"
  by (simp add: members_def)

lemma sum_list_map_less:
  fixes f g :: "'a \<Rightarrow> nat"
  assumes "\<forall>c\<in>set cs. f c \<le> g c" and "c0 \<in> set cs" and "f c0 < g c0"
  shows "sum_list (map f cs) < sum_list (map g cs)"
  using assms
proof (induction cs)
  case (Cons c cs)
  from Cons.prems(1) have le: "sum_list (map f cs) \<le> sum_list (map g cs)"
    by (intro sum_list_mono) simp
  show ?case
  proof (cases "c = c0")
    case True
    with Cons.prems(3) le show ?thesis by simp
  next
    case False
    with Cons have "sum_list (map f cs) < sum_list (map g cs)" by simp
    moreover from Cons.prems(1) have "f c \<le> g c" by simp
    ultimately show ?thesis by simp
  qed
qed simp

lemma map_insert_present:
  "sorted_wrt (<) (map fst m) \<Longrightarrow> k \<in> fst ` set m \<Longrightarrow> map_insert k v m = m"
proof (induction m)
  case (Cons a m)
  obtain k' v' where a: "a = (k', v')" by (cases a)
  show ?case
  proof (cases "k = k'")
    case True
    with a show ?thesis by simp
  next
    case False
    with Cons.prems a have km: "k \<in> fst ` set m" by auto
    with Cons.prems(1) a have "k' < k" by auto
    then have "\<not> k < k'" by simp
    with Cons.IH km Cons.prems(1) a False show ?thesis by simp
  qed
qed simp

lemma sorted_map_insert:
  "sorted_wrt (<) (map fst m) \<Longrightarrow> sorted_wrt (<) (map fst (map_insert k v m))"
proof (induction m)
  case (Cons a m)
  obtain k' v' where a: "a = (k', v')" by (cases a)
  from Cons.prems a have lt: "\<forall>x\<in>set m. k' < fst x" and sm: "sorted_wrt (<) (map fst m)"
    by auto
  show ?case
  proof (cases "k < k' \<or> k = k'")
    case True
    with Cons.prems a show ?thesis by auto
  next
    case False
    then have kk: "k' < k" by auto
    have "k' < fst x" if "x \<in> set (map_insert k v m)" for x
    proof -
      from that set_map_insert[of k v m] have "x = (k, v) \<or> x \<in> set m" by auto
      with kk lt show ?thesis by auto
    qed
    with Cons.IH[OF sm] False a show ?thesis by simp
  qed
qed simp

lemma map_of_map_insert_sorted:
  assumes "sorted_wrt (<) (map fst m)"
  shows "map_of (map_insert k v m) = map_of (m @ [(k, v)])"
proof (cases "k \<in> fst ` set m")
  case True
  then have "map_of m k \<noteq> None" by (simp add: map_of_eq_None_iff)
  with True assms show ?thesis
    by (auto simp: map_insert_present fun_eq_iff map_add_def split: option.splits)
next
  case False
  then have "map_of m k = None" by (simp add: map_of_eq_None_iff)
  from map_of_map_insert[OF this] this show ?thesis
    by (auto simp: fun_eq_iff map_add_def split: option.splits)
qed

lemma fold_map_insert:
  assumes "sorted_wrt (<) (map fst acc)"
  shows "sorted_wrt (<) (map fst (fold (\<lambda>kv. map_insert (fst kv) (snd kv)) es acc))
    \<and> map_of (fold (\<lambda>kv. map_insert (fst kv) (snd kv)) es acc) = map_of (acc @ es)"
  using assms
proof (induction es arbitrary: acc)
  case (Cons e es)
  let ?acc = "map_insert (fst e) (snd e) acc"
  from Cons.prems have s: "sorted_wrt (<) (map fst ?acc)"
    by (rule sorted_map_insert)
  from Cons.IH[OF s]
  have "map_of (fold (\<lambda>kv. map_insert (fst kv) (snd kv)) es ?acc) = map_of es ++ map_of ?acc"
    by simp
  also have "map_of ?acc = map_of (acc @ [(fst e, snd e)])"
    by (rule map_of_map_insert_sorted[OF Cons.prems])
  also have "map_of es ++ map_of (acc @ [(fst e, snd e)]) = map_of (acc @ e # es)"
    by (simp add: map_add_assoc)
  finally show ?case using Cons.IH[OF s] by simp
qed simp

lemma fold_insert_range:
  "fold insert_range ms acc = fold (\<lambda>kv. map_insert (fst kv) (snd kv)) (concat ms) acc"
  by (induction ms arbitrary: acc) (simp_all add: insert_range_def)

lemma map_snd_map_of:
  "distinct (map fst L) \<Longrightarrow> map snd L = map (\<lambda>k. the (map_of L k)) (map fst L)"
proof (induction L)
  case (Cons a L)
  obtain k v where a: "a = (k, v)" by (cases a)
  from Cons.prems a have "k \<notin> fst ` set L" by simp
  then have "map (\<lambda>k'. the (map_of (a # L) k')) (map fst L) = map (\<lambda>k'. the (map_of L k')) (map fst L)"
    using a by (intro map_cong) auto
  with Cons a show ?case by simp
qed simp

lemma build_payload_merged: "build_payload ms = merged_payload ms"
proof -
  let ?L = "fold insert_range ms []"
  from fold_map_insert[of "[]" "concat ms"]
  have s: "sorted_wrt (<) (map fst ?L)" and m: "map_of ?L = map_of (concat ms)"
    by (simp_all add: fold_insert_range)
  from s have d: "distinct (map fst ?L)" and so: "sorted (map fst ?L)"
    by (simp_all add: strict_sorted_iff)
  from m have "dom (map_of ?L) = dom (map_of (concat ms))" by simp
  then have "set (map fst ?L) = (\<Union>m\<in>set ms. fst ` set m)"
    by (simp add: dom_map_of_conv_image_fst image_UN)
  with d so have "map fst ?L = merged_ids ms"
    unfolding merged_ids_def by (metis sorted_list_of_set.idem_if_sorted_distinct)
  with map_snd_map_of[OF d] m show ?thesis
    by (simp add: build_payload_def merged_payload_def)
qed

lemma set_sel_subset: "set (sel xs bs) \<subseteq> set xs"
  by (auto simp: sel_def dest: set_zip_leftD)

lemma sel_pattern:
  "distinct xs \<Longrightarrow> length bs = length xs \<Longrightarrow> map (\<lambda>x. x \<in> set (sel xs bs)) xs = bs"
proof (induction xs arbitrary: bs)
  case (Cons x xs)
  then obtain b bs' where bs: "bs = b # bs'" by (cases bs) auto
  from Cons.prems have x: "x \<notin> set xs" by simp
  with set_sel_subset[of xs bs'] have xs: "x \<notin> set (sel xs bs')" by auto
  have "map (\<lambda>y. y \<in> set (sel (x # xs) bs)) xs = map (\<lambda>y. y \<in> set (sel xs bs')) xs"
    using x bs by (intro map_cong) auto
  with Cons.IH[of bs'] Cons.prems bs xs show ?case by simp
qed simp

lemma sel_map_filter: "sel xs (map P xs) = filter P xs"
  by (induction xs) simp_all

lemma drain_loop_merges:
  assumes "length tts = length cs" and "length cs \<le> 32" and "cursors_ok cs"
    and "m = lowest cs UINTPTR_MAX" and "ne = int (live cs)" and "cache_ok h tts cache"
    and "distinct tts" and "log_cache_ok tts cache log" and "reuse log"
  shows "\<exists>logF. drain_loop h tts cs ne m cache log = Some (Inr (UINTPTR_MAX, log @ logF))
    \<and> map who logF = sorted_list_of_set (members cs)
    \<and> (\<forall>d\<in>set logF. matched d = sel tts (map (\<lambda>c. who d \<in> set c) cs)
          \<and> payload d = build_payload (map (\<lambda>t. messages (h ! t)) (matched d)))
    \<and> reuse (log @ logF)"
  using assms
proof (induction "sum_list (map length cs)" arbitrary: cs ne m cache log rule: less_induct)
  case less
  show ?case
  proof (cases "members cs = {}")
    case True
    with less.prems have "ne = 0" "m = UINTPTR_MAX"
      by (simp_all add: live_0_iff lowest_empty)
    with True less.prems(9) show ?thesis by (simp add: drain_loop_done)
  next
    case False
    let ?cs' = "map (advance m) cs"
    let ?bs = "map (\<lambda>c. m \<in> set c) cs"
    let ?k = "mask_of 0 ?bs"
    let ?res = "build_payload (map (\<lambda>t. messages (h ! t)) (sel tts ?bs))"
    let ?cache' = "if cache ?k = [] then cache(?k := ?res) else cache"
    let ?d = "\<lparr>who = m, payload = (if cache ?k = [] then ?res else cache ?k),
                built = (cache ?k = []), matched = sel tts ?bs\<rparr>"
    from less.prems False have ne: "ne \<noteq> 0" by (simp add: live_0_iff)
    from less.prems(3,4) False have m_in: "m \<in> members cs" by (simp add: lowest_member)
    from less.prems(3,4) have m_le: "\<forall>x\<in>members cs. m \<le> x" by (simp add: lowest_least)
    have sorted: "sorted_wrt (<) c" if "c \<in> set cs" for c
      using that less.prems(3) by (simp add: cursors_ok_def list_all_iff)
    have le: "\<forall>x\<in>set c. m \<le> x" if "c \<in> set cs" for c
      using that m_le by (auto simp: members_def)
    have hit: "hit m c \<longleftrightarrow> m \<in> set c" if "c \<in> set cs" for c
      using hit_iff_member[OF sorted[OF that] le[OF that]] .
    have adv: "set (advance m c) = set c - {m}" if "c \<in> set cs" for c
      using set_advance[OF sorted[OF that] le[OF that]] .
    have mem': "members ?cs' = members cs - {m}"
      using adv by (auto simp: members_def)
    have bs: "map (hit m) cs = ?bs"
      using hit by simp
    from m_in obtain c0 where c0: "c0 \<in> set cs" "m \<in> set c0" by (auto simp: members_def)
    have "sum_list (map length ?cs') < sum_list (map length cs)"
    proof -
      have "length (advance m c) \<le> length c" for c by (simp add: length_advance)
      moreover have "length (advance m c0) < length c0"
      proof -
        from c0(2) have "0 < length c0" by (cases c0) auto
        with c0(2) hit[OF c0(1)] show ?thesis by (simp add: length_advance)
      qed
      ultimately show ?thesis
        using c0(1) sum_list_map_less[of cs "\<lambda>c. length (advance m c)" length c0]
        by (simp add: o_def)
    qed
    moreover have "length tts = length ?cs'" "length ?cs' \<le> 32" "cursors_ok ?cs'"
      using less.prems by (simp_all add: cursors_ok_advance)
    moreover have "ne - int (length (filter (\<lambda>c. hit m c \<and> advance m c = []) cs)) = int (live ?cs')"
      using less.prems(5) by (simp add: live_advance)
    moreover have "cache_ok h tts ?cache'"
      unfolding cache_ok_def
    proof (intro allI impI)
      fix bs' assume l: "length bs' = length tts" and n: "?cache' (mask_of 0 bs') \<noteq> []"
      show "?cache' (mask_of 0 bs') = build_payload (map (\<lambda>t. messages (h ! t)) (sel tts bs'))"
      proof (cases "cache ?k = [] \<and> mask_of 0 bs' = ?k")
        case True
        with l less.prems(1,2) have "bs' = ?bs"
          by (intro mask_of_inj) simp_all
        with True show ?thesis by simp
      next
        case False
        with n have "cache (mask_of 0 bs') \<noteq> []" "?cache' (mask_of 0 bs') = cache (mask_of 0 bs')"
          by (auto split: if_splits)
        with less.prems(6) l show ?thesis by (simp add: cache_ok_def)
      qed
    qed
    moreover have key: "pattern_key tts (sel tts ?bs) = ?k"
      using less.prems(1,7) by (simp add: pattern_key_def sel_pattern)
    have "log_cache_ok tts ?cache' (log @ [?d])"
      unfolding log_cache_ok_def
    proof
      fix d assume d: "d \<in> set (log @ [?d])"
      show "payload d \<noteq> [] \<longrightarrow> ?cache' (pattern_key tts (matched d)) \<noteq> []"
      proof (cases "d = ?d")
        case True
        with key show ?thesis by auto
      next
        case False
        with d have "d \<in> set log" by simp
        with less.prems(8) have "payload d \<noteq> [] \<longrightarrow> cache (pattern_key tts (matched d)) \<noteq> []"
          by (simp add: log_cache_ok_def)
        then show ?thesis by auto
      qed
    qed
    moreover have "reuse (log @ [?d])"
      unfolding reuse_def
    proof (intro allI impI)
      fix j i assume j: "j < length (log @ [?d])" and i: "i < j"
        and e: "matched ((log @ [?d]) ! i) = matched ((log @ [?d]) ! j) \<and> payload ((log @ [?d]) ! i) \<noteq> []"
      show "\<not> built ((log @ [?d]) ! j)"
      proof (cases "j < length log")
        case True
        with i e less.prems(9) show ?thesis by (simp add: reuse_def nth_append)
      next
        case False
        with j have jl: "j = length log" by simp
        with i have "log ! i \<in> set log" by simp
        moreover from e i jl have "matched (log ! i) = sel tts ?bs" "payload (log ! i) \<noteq> []"
          by (simp_all add: nth_append)
        ultimately have "cache ?k \<noteq> []"
          using less.prems(8) key by (auto simp: log_cache_ok_def)
        with jl show ?thesis by simp
      qed
    qed
    ultimately obtain logF where
      run: "drain_loop h tts ?cs' (int (live ?cs')) (lowest ?cs' UINTPTR_MAX) ?cache' (log @ [?d])
              = Some (Inr (UINTPTR_MAX, (log @ [?d]) @ logF))"
      and who: "map who logF = sorted_list_of_set (members ?cs')"
      and pay: "\<forall>d\<in>set logF. matched d = sel tts (map (\<lambda>c. who d \<in> set c) ?cs')
          \<and> payload d = build_payload (map (\<lambda>t. messages (h ! t)) (matched d))"
      and reu: "reuse ((log @ [?d]) @ logF)"
      using less.prems(7) less.hyps[of ?cs' "lowest ?cs' UINTPTR_MAX" "int (live ?cs')" ?cache' "log @ [?d]"]
      by auto
    from drain_iter_spec[OF less.prems(1,2), of h ne m cache, unfolded bs] ne run
    have "drain_loop h tts cs ne m cache log = Some (Inr (UINTPTR_MAX, log @ ?d # logF))"
      using less.prems(5) by (simp add: drain_loop_step live_advance)
    moreover from m_in m_le have "Min (members cs) = m"
      by (intro Min_eqI) auto
    with m_in have "sorted_list_of_set (members cs) = m # sorted_list_of_set (members ?cs')"
      using sorted_list_of_set_nonempty[of "members cs"] by (auto simp: mem')
    with who have "map who (?d # logF) = sorted_list_of_set (members cs)" by simp
    moreover have "matched d = sel tts (map (\<lambda>c. who d \<in> set c) cs)
          \<and> payload d = build_payload (map (\<lambda>t. messages (h ! t)) (matched d))"
      if d: "d \<in> set (?d # logF)" for d
    proof (cases "d = ?d")
      case True
      have "cache ?k \<noteq> [] \<Longrightarrow> cache ?k = ?res"
        using less.prems(1,6) by (simp add: cache_ok_def)
      with True show ?thesis by auto
    next
      case False
      with d have dl: "d \<in> set logF" by simp
      then have "who d \<in> set (map who logF)" by simp
      with who have "who d \<in> members cs - {m}" by (simp add: mem')
      then have "who d \<noteq> m" by simp
      with adv have "map (\<lambda>c. who d \<in> set c) ?cs' = map (\<lambda>c. who d \<in> set c) cs"
        by simp
      with pay[rule_format, OF dl] show ?thesis by (simp only:)
    qed
    moreover from reu have "reuse (log @ ?d # logF)" by simp
    ultimately show ?thesis by blast
  qed
qed

lemma distinct_map_filter_nth:
  assumes "\<forall>j<length xs. \<forall>i<j. f (xs ! i) = f (xs ! j) \<and> Q (xs ! i) \<longrightarrow> \<not> R (xs ! j)"
  shows "distinct (map f (filter (\<lambda>x. R x \<and> Q x) xs))"
  using assms
proof (induction xs rule: rev_induct)
  case (snoc x xs)
  have pre: "\<forall>j<length xs. \<forall>i<j. f (xs ! i) = f (xs ! j) \<and> Q (xs ! i) \<longrightarrow> \<not> R (xs ! j)"
  proof (intro allI impI)
    fix j i assume j: "j < length xs" and i: "i < j"
      and e: "f (xs ! i) = f (xs ! j) \<and> Q (xs ! i)"
    from snoc.prems[rule_format, of j i] j i e show "\<not> R (xs ! j)"
      by (simp add: nth_append)
  qed
  have "f x \<notin> f ` set (filter (\<lambda>x. R x \<and> Q x) xs)" if "R x"
  proof
    assume "f x \<in> f ` set (filter (\<lambda>x. R x \<and> Q x) xs)"
    then obtain y where y: "y \<in> set xs" "Q y" "f y = f x" by auto
    then obtain i where i: "i < length xs" "xs ! i = y" by (auto simp: in_set_conv_nth)
    from snoc.prems[rule_format, of "length xs" i] i y have "\<not> R x"
      by (simp add: nth_append)
    with that show False by simp
  qed
  with snoc.IH[OF pre] show ?case by auto
qed simp

lemma length_filter_split:
  "\<forall>x\<in>set xs. A x \<longrightarrow> B x \<or> C x \<Longrightarrow>
     length (filter A xs) \<le> length (filter B xs) + length (filter C xs)"
  by (induction xs) auto

lemma reuse_bounds_constructions:
  assumes "reuse log"
  shows "constructions log \<le> distinct_subsets log + length (filter (\<lambda>d. payload d = []) log)"
proof -
  let ?P = "\<lambda>d. built d \<and> payload d \<noteq> []"
  from assms have "distinct (map matched (filter ?P log))"
    unfolding reuse_def by (rule distinct_map_filter_nth)
  from distinct_card[OF this]
  have "length (filter ?P log) = card (set (map matched (filter ?P log)))"
    by simp
  also have "\<dots> \<le> card (set (map matched log))"
    by (intro card_mono) auto
  finally have "length (filter ?P log) \<le> distinct_subsets log"
    by (simp add: distinct_subsets_def)
  moreover have "length (filter built log) \<le> length (filter ?P log) + length (filter (\<lambda>d. payload d = []) log)"
    by (intro length_filter_split) auto
  ultimately show ?thesis by (simp add: constructions_def)
qed

lemma drain_batch:
  assumes "batch_ok s"
  shows "\<exists>log. drain s =
        Some (Inr (log, s\<lparr>heap := fold clear_topic (triggeredTopics s) (heap s),
                           triggeredTopics := [], min_sub := UINTPTR_MAX\<rparr>))
    \<and> map who log = sorted_list_of_set (touched s)
    \<and> (\<forall>d\<in>set log. matched d = nodes_of s (who d)
          \<and> payload d = merged_payload (map (\<lambda>t. messages (heap s ! t)) (nodes_of s (who d))))
    \<and> reuse log"
proof (cases "triggeredTopics s = []")
  case True
  with assms have "min_sub s = UINTPTR_MAX" by (simp add: batch_ok_def lowest_def)
  with True show ?thesis
    by (simp add: drain_def touched_def reuse_def)
next
  case False
  let ?tts = "triggeredTopics s"
  let ?cs = "map (\<lambda>t. subs (heap s ! t)) ?tts"
  from assms have len: "length ?tts = length ?cs" "length ?cs \<le> 32"
    and ok: "cursors_ok ?cs" and m: "min_sub s = lowest ?cs UINTPTR_MAX"
    and d: "distinct ?tts" and ne: "\<forall>c\<in>set ?cs. c \<noteq> []"
    by (auto simp: batch_ok_def cursors_ok_def list_all_iff)
  from ne have "live ?cs = length ?cs"
    by (induction ?cs) (simp_all add: live_def)
  then have l: "int (length ?tts) = int (live ?cs)" by simp
  have c: "cache_ok (heap s) ?tts (\<lambda>_. [])" by (simp add: cache_ok_def)
  have lc: "log_cache_ok ?tts (\<lambda>_. []) []" by (simp add: log_cache_ok_def)
  have r: "reuse []" by (simp add: reuse_def)
  from drain_loop_merges[OF len ok m l c d lc r]
  obtain log where run: "drain_loop (heap s) ?tts ?cs (int (length ?tts)) (min_sub s) (\<lambda>_. []) []
        = Some (Inr (UINTPTR_MAX, log))"
    and who: "map who log = sorted_list_of_set (members ?cs)"
    and pay: "\<forall>d\<in>set log. matched d = sel ?tts (map (\<lambda>c. who d \<in> set c) ?cs)
          \<and> payload d = build_payload (map (\<lambda>t. messages (heap s ! t)) (matched d))"
    and reu: "reuse log"
    by auto
  have "members ?cs = touched s" by (auto simp: members_def touched_def)
  moreover have "sel ?tts (map (\<lambda>c. x \<in> set c) ?cs) = nodes_of s x" for x
    using sel_map_filter[of ?tts "\<lambda>t. x \<in> set (subs (heap s ! t))"]
    by (simp add: nodes_of_def o_def)
  ultimately show ?thesis
    using run who pay reu False by (simp add: drain_def build_payload_merged)
qed

text \<open>
  The branch of \<open>drain\<close> that reads the payload from \<open>intersectionCache\<close> is only taken for
  an entry of length other than 0: an empty payload is always a constructed one.
\<close>

lemma drain_iter_empty_payload:
  "drain_iter h tts cs ne m cache = Inr (cs', ne', m', cache', d) \<Longrightarrow> payload d = [] \<Longrightarrow> built d"
  by (auto simp: drain_iter_def Let_def split: sum.splits if_splits)

lemma drain_loop_empty_payload:
  assumes "drain_loop h tts cs ne m cache log = Some y"
    and "\<forall>d\<in>set log. payload d = [] \<longrightarrow> built d"
  shows "\<forall>m' log'. y = Inr (m', log') \<longrightarrow> (\<forall>d\<in>set log'. payload d = [] \<longrightarrow> built d)"
  using assms
proof (induction arbitrary: rule: drain_loop.raw_induct[rotated 1, consumes 1])
  case (1 drain_loop h tts cs ne m cache log y)
  show ?case
  proof (cases "ne = 0")
    case True
    with "1.hyps" "1.prems" show ?thesis by auto
  next
    case False
    show ?thesis
    proof (cases "drain_iter h tts cs ne m cache")
      case (Inl f)
      with "1.hyps" False show ?thesis by auto
    next
      case (Inr r)
      obtain cs' ne' m'' cache' d where r: "r = (cs', ne', m'', cache', d)" by (cases r) auto
      from "1.hyps" False Inr r have run: "drain_loop h tts cs' ne' m'' cache' (log @ [d]) = Some y"
        by simp
      from drain_iter_empty_payload[OF Inr[unfolded r]] "1.prems"
      have "\<forall>e\<in>set (log @ [d]). payload e = [] \<longrightarrow> built e" by auto
      with "1.IH"[OF run] show ?thesis by blast
    qed
  qed
qed

lemma drain_empty_payload:
  assumes "drain s = Some (Inr (log, s'))"
  shows "\<forall>d\<in>set log. payload d = [] \<longrightarrow> built d"
proof (cases "triggeredTopics s = []")
  case True
  with assms show ?thesis by (simp add: drain_def)
next
  case False
  with assms obtain m where "drain_loop (heap s) (triggeredTopics s)
                (map (\<lambda>t. subs (heap s ! t)) (triggeredTopics s))
                (int (length (triggeredTopics s))) (min_sub s) (\<lambda>_. []) [] = Some (Inr (m, log))"
    by (auto simp: drain_def split: option.splits sum.splits)
  from drain_loop_empty_payload[OF this] show ?thesis by simp
qed

section \<open>The invariant of the tree\<close>

subsection \<open>The shape of the tree\<close>

lemma node_ok_iff:
  "node_ok h p \<longleftrightarrow>
     (\<forall>k c. (k, c) \<in> set (children (h ! p)) \<longrightarrow> c < length h \<and> parent (h ! c) = Some p \<and> name (h ! c) = k)
     \<and> distinct (map fst (children (h ! p)))
     \<and> wildcardChild (h ! p) = map_of (children (h ! p)) ''+''
     \<and> terminatingWildcardChild (h ! p) = map_of (children (h ! p)) ''#''
     \<and> (case parent (h ! p) of None \<Rightarrow> p = root | Some q \<Rightarrow> q < p)"
  by (auto simp: node_ok_def list_all_iff)

lemma tree_ok_iff: "tree_ok h \<longleftrightarrow> h \<noteq> [] \<and> (\<forall>p<length h. node_ok h p)"
  by (auto simp: tree_ok_def list_all_iff)

lemma trimmed_iff:
  "trimmed h \<longleftrightarrow> (\<forall>p<length h. \<forall>k c. (k, c) \<in> set (children (h ! p)) \<longrightarrow> \<not> is_unused (h ! c))"
proof -
  have "(\<forall>t\<in>set h. P t) \<longleftrightarrow> (\<forall>p<length h. P (h ! p))" for P :: "Topic \<Rightarrow> bool"
    by (metis in_set_conv_nth)
  then show ?thesis by (simp add: trimmed_def list_all_iff) fastforce
qed

lemma trimmed_except_iff:
  "trimmed_except x h \<longleftrightarrow>
     (\<forall>p<length h. \<forall>k c. (k, c) \<in> set (children (h ! p)) \<longrightarrow> c = x \<or> \<not> is_unused (h ! c))"
proof -
  have "(\<forall>t\<in>set h. P t) \<longleftrightarrow> (\<forall>p<length h. P (h ! p))" for P :: "Topic \<Rightarrow> bool"
    by (metis in_set_conv_nth)
  then show ?thesis by (simp add: trimmed_except_def list_all_iff) fastforce
qed

lemma tree_ok_child:
  assumes "tree_ok h" and "p < length h" and "(k, c) \<in> set (children (h ! p))"
  shows "c < length h" and "parent (h ! c) = Some p" and "name (h ! c) = k" and "p < c" and "c \<noteq> root"
proof -
  from assms have n: "node_ok h p" by (simp add: tree_ok_iff)
  with assms(3) show c: "c < length h" and pc: "parent (h ! c) = Some p" and "name (h ! c) = k"
    by (auto simp: node_ok_iff)
  from assms(1) c have "node_ok h c" by (simp add: tree_ok_iff)
  with pc show "p < c" by (simp add: node_ok_iff)
  then show "c \<noteq> root" by (simp add: root_def)
qed

lemma tree_ok_lookup:
  assumes "tree_ok h" and "p < length h" and "map_of (children (h ! p)) k = Some c"
  shows "c < length h" and "parent (h ! c) = Some p" and "name (h ! c) = k" and "p < c" and "c \<noteq> root"
  using tree_ok_child[OF assms(1,2) map_of_SomeD[OF assms(3)]] by auto

lemma trimmed_except_root: "tree_ok h \<Longrightarrow> trimmed_except root h = trimmed h"
  unfolding trimmed_except_iff trimmed_iff using tree_ok_child(5) by blast

lemma single_char: "length nm = 1 \<and> nm ! 0 = c \<longleftrightarrow> nm = [c]"
  by (cases nm) auto

lemma map_of_map_erase: "map_of (map_erase k m) = (map_of m)(k := None)"
  by (induction m) (auto simp: map_erase_def)

lemma set_map_erase: "set (map_erase k m) = {kc \<in> set m. fst kc \<noteq> k}"
  by (auto simp: map_erase_def)

lemma distinct_map_erase: "distinct (map fst m) \<Longrightarrow> distinct (map fst (map_erase k m))"
  by (simp add: map_erase_def distinct_map_filter)

lemma set_map_insert_new: "map_of m k = None \<Longrightarrow> set (map_insert k v m) = insert (k, v) (set m)"
  by (induction m) (auto split: if_splits)

lemma distinct_map_insert:
  "map_of m k = None \<Longrightarrow> distinct (map fst m) \<Longrightarrow> distinct (map fst (map_insert k v m))"
proof (induction m)
  case (Cons a m)
  obtain k' v' where a: "a = (k', v')" by (cases a)
  from Cons.prems a have n: "k \<noteq> k'" "map_of m k = None" by (auto split: if_splits)
  with Cons a set_map_insert_new[OF n(2), of v] show ?case by (auto simp: image_iff)
qed simp

lemma add_child_simps [simp]:
  "children (add_child seg n t) = map_insert seg n (children t)"
  "wildcardChild (add_child seg n t) = (if seg = ''+'' then Some n else wildcardChild t)"
  "terminatingWildcardChild (add_child seg n t) = (if seg = ''#'' then Some n else terminatingWildcardChild t)"
  "name (add_child seg n t) = name t" "parent (add_child seg n t) = parent t"
  "subs (add_child seg n t) = subs t" "messages (add_child seg n t) = messages t"
  "triggered (add_child seg n t) = triggered t"
  by (cases seg; auto simp: add_child_def)+

lemma detach_simps [simp]:
  "children (detach nm t) = map_erase nm (children t)"
  "wildcardChild (detach nm t) = (if nm = ''+'' then None else wildcardChild t)"
  "terminatingWildcardChild (detach nm t) = (if nm = ''#'' then None else terminatingWildcardChild t)"
  "name (detach nm t) = name t" "parent (detach nm t) = parent t"
  "subs (detach nm t) = subs t" "messages (detach nm t) = messages t"
  "triggered (detach nm t) = triggered t"
  by (cases nm; auto simp: detach_def)+

lemma tree_ok_init: "tree_ok (heap init)"
  by (simp add: tree_ok_def node_ok_def init_def new_Topic_def root_def)

lemma well_formedI:
  assumes "tree_ok (heap s)" and "trimmed (heap s)"
    and "\<And>x t. t \<in> set (subscriptions s x) \<Longrightarrow> t \<noteq> root \<and> t < length (heap s)"
    and "\<And>t km. t < length (heap s) \<Longrightarrow> km \<in> set (messages (heap s ! t)) \<Longrightarrow> fst km < messageId s"
    and "\<And>t. t < length (heap s) \<Longrightarrow> triggered (heap s ! t) \<Longrightarrow> t \<in> set (triggeredTopics s)"
    and "\<And>t. t \<in> set (triggeredTopics s) \<Longrightarrow> t < length (heap s)"
  shows "well_formed s"
  unfolding well_formed_def using assms by blast

lemma well_formedD:
  assumes "well_formed s"
  shows "tree_ok (heap s)" and "trimmed (heap s)"
    and "\<And>x t. t \<in> set (subscriptions s x) \<Longrightarrow> t \<noteq> root \<and> t < length (heap s)"
    and "\<And>t km. t < length (heap s) \<Longrightarrow> km \<in> set (messages (heap s ! t)) \<Longrightarrow> fst km < messageId s"
    and "\<And>t. t < length (heap s) \<Longrightarrow> triggered (heap s ! t) \<Longrightarrow> t \<in> set (triggeredTopics s)"
    and "\<And>t. t \<in> set (triggeredTopics s) \<Longrightarrow> t < length (heap s)"
  using assms unfolding well_formed_def by blast+

lemma well_formed_init: "well_formed init"
  using tree_ok_init by (simp add: well_formed_def trimmed_def init_def new_Topic_def)

subsection \<open>subscribe keeps the invariant\<close>

text \<open>
  The walk of \<open>subscribe\<close> keeps the shape. Only the topic it stands on can be unused while
  it is in a child map: it gets a child in the next step of the walk, or the subscriber at
  its end.
\<close>

lemma subscribe_walk_tree:
  assumes "subscribe_walk it r h = (t, h')" and "tree_ok h" and "it < length h"
    and "trimmed_except it h" and "r = None \<longrightarrow> it \<noteq> root"
  shows "tree_ok h' \<and> t < length h' \<and> t \<noteq> root \<and> trimmed_except t h' \<and> length h \<le> length h'
     \<and> (\<forall>p<length h. messages (h' ! p) = messages (h ! p) \<and> triggered (h' ! p) = triggered (h ! p))
     \<and> (\<forall>p. length h \<le> p \<longrightarrow> p < length h' \<longrightarrow> messages (h' ! p) = [] \<and> \<not> triggered (h' ! p))"
  using assms
proof (induction it r h arbitrary: t h' rule: subscribe_walk.induct)
  case (1 iterator h)
  then show ?case by simp
next
  case (2 iterator r h)
  show ?case
  proof (cases "map_of (children (h ! iterator)) (segment r)")
    case (Some c)
    with "2.prems" have w: "subscribe_walk c (after_slash r) h = (t, h')" by simp
    from tree_ok_lookup[OF "2.prems"(2,3) Some] have c: "c < length h" "c \<noteq> root" by auto
    from Some have "children (h ! iterator) \<noteq> []" by auto
    then have "\<not> is_unused (h ! iterator)" by (simp add: is_unused_def)
    with "2.prems"(4) have "trimmed_except c h"
      unfolding trimmed_except_iff by blast
    from "2.IH"(2)[OF Some w "2.prems"(2) c(1) this] c(2) show ?thesis by simp
  next
    case None
    let ?n = "length h"
    let ?seg = "segment r"
    let ?h1 = "h[iterator := add_child ?seg ?n (h ! iterator)]
               @ [new_Topic\<lparr>name := ?seg, parent := Some iterator\<rparr>]"
    from None "2.prems" have w: "subscribe_walk ?n (after_slash r) ?h1 = (t, h')" by simp
    have it: "?h1 ! iterator = add_child ?seg ?n (h ! iterator)"
      using "2.prems"(3) by (simp add: nth_append)
    have new: "?h1 ! ?n = new_Topic\<lparr>name := ?seg, parent := Some iterator\<rparr>"
      by (simp add: nth_append)
    have other: "?h1 ! p = h ! p" if "p < ?n" "p \<noteq> iterator" for p
      using that by (simp add: nth_append)
    have same: "parent (?h1 ! p) = parent (h ! p) \<and> name (?h1 ! p) = name (h ! p)
        \<and> messages (?h1 ! p) = messages (h ! p) \<and> subs (?h1 ! p) = subs (h ! p)
        \<and> triggered (?h1 ! p) = triggered (h ! p)" if "p < ?n" for p
      using that it other[of p] by (cases "p = iterator") simp_all
    have ch: "set (children (?h1 ! iterator)) = insert (?seg, ?n) (set (children (h ! iterator)))"
      using it set_map_insert_new[OF None] by simp
    from "2.prems"(2) have ok: "node_ok h p" if "p < ?n" for p
      using that by (simp add: tree_ok_iff)
    have n0: "?n \<noteq> root" using "2.prems"(3) by (auto simp: root_def)
    have "node_ok ?h1 p" if p: "p < length ?h1" for p
    proof -
      consider "p = ?n" | "p = iterator" | "p < ?n" "p \<noteq> iterator" using p by fastforce
      then show ?thesis
      proof cases
        case 1
        with new "2.prems"(3) show ?thesis by (simp add: node_ok_def new_Topic_def)
      next
        case 2
        from ok[OF "2.prems"(3)] have o: "node_ok h iterator" .
        have "c < length ?h1 \<and> parent (?h1 ! c) = Some iterator \<and> name (?h1 ! c) = k"
          if "(k, c) \<in> set (children (?h1 ! iterator))" for k c
        proof (cases "(k, c) = (?seg, ?n)")
          case True
          with new show ?thesis by simp
        next
          case False
          with that ch have "(k, c) \<in> set (children (h ! iterator))" by auto
          from tree_ok_child[OF "2.prems"(2,3) this] same[of c] show ?thesis by simp
        qed
        moreover have "distinct (map fst (children (?h1 ! iterator)))"
          using o it distinct_map_insert[OF None] by (simp add: node_ok_iff)
        moreover have "wildcardChild (?h1 ! iterator) = map_of (children (?h1 ! iterator)) ''+''"
          "terminatingWildcardChild (?h1 ! iterator) = map_of (children (?h1 ! iterator)) ''#''"
          using o it map_of_map_insert[OF None, of ?n]
          by (auto simp: node_ok_iff)
        moreover have "(case parent (?h1 ! iterator) of None \<Rightarrow> iterator = root | Some q \<Rightarrow> q < iterator)"
          using o same[OF "2.prems"(3)] by (simp add: node_ok_iff)
        ultimately show ?thesis unfolding 2 node_ok_iff by blast
      next
        case 3
        from ok[OF 3(1)] have o: "node_ok h p" .
        have "c < length ?h1 \<and> parent (?h1 ! c) = Some p \<and> name (?h1 ! c) = k"
          if "(k, c) \<in> set (children (h ! p))" for k c
          using tree_ok_child[OF "2.prems"(2) 3(1) that] same[of c] by simp
        with o other[OF 3] show ?thesis by (simp add: node_ok_iff)
      qed
    qed
    then have t1: "tree_ok ?h1" by (simp add: tree_ok_iff)
    have t2: "trimmed_except ?n ?h1"
      unfolding trimmed_except_iff
    proof (intro allI impI)
      fix p k c assume p: "p < length ?h1" and kc: "(k, c) \<in> set (children (?h1 ! p))"
      show "c = ?n \<or> \<not> is_unused (?h1 ! c)"
      proof (cases "c = ?n")
        case False
        have pn: "p \<noteq> ?n" using kc new by (auto simp: new_Topic_def)
        with p have pl: "p < ?n" by simp
        have old: "(k, c) \<in> set (children (h ! p))"
          using kc ch other[OF pl] False by (cases "p = iterator") auto
        from tree_ok_child[OF "2.prems"(2) pl old] have cl: "c < ?n" by simp
        show ?thesis
        proof (cases "c = iterator")
          case True
          from ch have "children (?h1 ! iterator) \<noteq> []" by auto
          with True show ?thesis by (simp add: is_unused_def)
        next
          case False
          with "2.prems"(4) pl old have "\<not> is_unused (h ! c)"
            unfolding trimmed_except_iff by blast
          with other[OF cl False] show ?thesis by simp
        qed
      qed simp
    qed
    from "2.IH"(1)[OF None w t1 _ t2] n0
    have ih: "tree_ok h'" "t < length h'" "t \<noteq> root" "trimmed_except t h'" "length ?h1 \<le> length h'"
      "\<forall>p<length ?h1. messages (h' ! p) = messages (?h1 ! p) \<and> triggered (h' ! p) = triggered (?h1 ! p)"
      "\<forall>p. length ?h1 \<le> p \<longrightarrow> p < length h' \<longrightarrow> messages (h' ! p) = [] \<and> \<not> triggered (h' ! p)"
      by auto
    have "messages (h' ! p) = messages (h ! p) \<and> triggered (h' ! p) = triggered (h ! p)" if "p < ?n" for p
      using that ih(6) same[OF that] by simp
    moreover have "messages (h' ! p) = [] \<and> \<not> triggered (h' ! p)" if "?n \<le> p" "p < length h'" for p
    proof (cases "p = ?n")
      case True
      with ih(6) new show ?thesis by (simp add: new_Topic_def)
    next
      case False
      with that ih(7) show ?thesis by simp
    qed
    ultimately show ?thesis using ih by simp
  qed
qed

lemma skeleton_simps [simp]:
  "name (skeleton t) = name t" "parent (skeleton t) = parent t" "children (skeleton t) = children t"
  "wildcardChild (skeleton t) = wildcardChild t"
  "terminatingWildcardChild (skeleton t) = terminatingWildcardChild t"
  "subs (skeleton t) = subs t" "is_unused (skeleton t) = is_unused t"
  by (simp_all add: skeleton_def is_unused_def)

lemma tree_ok_cong:
  assumes "length h' = length h"
    and "\<And>p. p < length h \<Longrightarrow> children (h' ! p) = children (h ! p) \<and> name (h' ! p) = name (h ! p)
        \<and> parent (h' ! p) = parent (h ! p) \<and> wildcardChild (h' ! p) = wildcardChild (h ! p)
        \<and> terminatingWildcardChild (h' ! p) = terminatingWildcardChild (h ! p)"
    and "tree_ok h"
  shows "tree_ok h'"
proof -
  have "node_ok h' p" if p: "p < length h" for p
  proof -
    from assms(3) p have o: "node_ok h p" by (simp add: tree_ok_iff)
    have "c < length h' \<and> parent (h' ! c) = Some p \<and> name (h' ! c) = k"
      if "(k, c) \<in> set (children (h ! p))" for k c
      using tree_ok_child[OF assms(3) p that] assms(1) assms(2)[of c] by simp
    with o assms(2)[OF p] show ?thesis by (simp add: node_ok_iff)
  qed
  with assms(1,3) show ?thesis by (auto simp: tree_ok_iff)
qed

lemma skeleton_eq_length: "map skeleton h' = map skeleton h \<Longrightarrow> length h' = length h"
  by (metis length_map)

lemma skeleton_eq_fields:
  assumes "map skeleton h' = map skeleton h" and "p < length h"
  shows "length h' = length h" and "children (h' ! p) = children (h ! p)" and "name (h' ! p) = name (h ! p)"
    and "parent (h' ! p) = parent (h ! p)" and "wildcardChild (h' ! p) = wildcardChild (h ! p)"
    and "terminatingWildcardChild (h' ! p) = terminatingWildcardChild (h ! p)"
    and "subs (h' ! p) = subs (h ! p)"
proof -
  from assms(1) have "length (map skeleton h') = length (map skeleton h)" by simp
  then show l: "length h' = length h" by simp
  from assms(1) have "map skeleton h' ! p = map skeleton h ! p" by simp
  with l assms(2) have e: "skeleton (h' ! p) = skeleton (h ! p)" by simp
  from arg_cong[OF e, of children] show "children (h' ! p) = children (h ! p)" by simp
  from arg_cong[OF e, of name] show "name (h' ! p) = name (h ! p)" by simp
  from arg_cong[OF e, of parent] show "parent (h' ! p) = parent (h ! p)" by simp
  from arg_cong[OF e, of wildcardChild] show "wildcardChild (h' ! p) = wildcardChild (h ! p)" by simp
  from arg_cong[OF e, of terminatingWildcardChild]
  show "terminatingWildcardChild (h' ! p) = terminatingWildcardChild (h ! p)" by simp
  from arg_cong[OF e, of subs] show "subs (h' ! p) = subs (h ! p)" by simp
qed

lemma skeleton_tree:
  assumes "map skeleton h' = map skeleton h" and "tree_ok h"
  shows "tree_ok h'"
  using skeleton_eq_fields[OF assms(1)] skeleton_eq_length[OF assms(1)] by (intro tree_ok_cong[OF _ _ assms(2)]) simp_all

lemma skeleton_trimmed:
  assumes "map skeleton h' = map skeleton h" and "tree_ok h" and "trimmed h"
  shows "trimmed h'"
  unfolding trimmed_iff
proof (intro allI impI)
  fix p k c assume p: "p < length h'" and kc: "(k, c) \<in> set (children (h' ! p))"
  from skeleton_eq_length[OF assms(1)] p have pl: "p < length h" by simp
  with kc skeleton_eq_fields(2)[OF assms(1) pl] have old: "(k, c) \<in> set (children (h ! p))" by simp
  from tree_ok_child(1)[OF assms(2) pl old] have c: "c < length h" .
  from assms(3) pl old have "\<not> is_unused (h ! c)" unfolding trimmed_iff by blast
  with skeleton_eq_fields[OF assms(1) c] show "\<not> is_unused (h' ! c)"
    by (simp add: is_unused_def)
qed

lemma well_formed_subscribe: "well_formed s \<Longrightarrow> well_formed (subscribe topic x s)"
proof -
  assume wf: "well_formed s"
  obtain t h' where w: "subscribe_walk root (Some topic) (heap s) = (t, h')"
    by (cases "subscribe_walk root (Some topic) (heap s)")
  note d = well_formedD[OF wf]
  from d(1) have r: "root < length (heap s)" by (simp add: tree_ok_iff root_def)
  from d(1,2) have te: "trimmed_except root (heap s)" by (simp add: trimmed_except_root)
  from subscribe_walk_tree[OF w d(1) r te]
  have p: "tree_ok h'" "t < length h'" "t \<noteq> root" "trimmed_except t h'" "length (heap s) \<le> length h'"
    "\<forall>p<length (heap s). messages (h' ! p) = messages (heap s ! p) \<and> triggered (h' ! p) = triggered (heap s ! p)"
    "\<forall>p. length (heap s) \<le> p \<longrightarrow> p < length h' \<longrightarrow> messages (h' ! p) = [] \<and> \<not> triggered (h' ! p)"
    by auto
  let ?h = "h'[t := (h' ! t)\<lparr>subs := set_insert x (subs (h' ! t))\<rparr>]"
  let ?s = "s\<lparr>heap := ?h, subscriptions := (subscriptions s)(x := subscriptions s x @ [t])\<rparr>"
  have s1: "subscribe topic x s = ?s"
    by (rule subscribe_result[OF w])
  have f: "children (?h ! q) = children (h' ! q) \<and> name (?h ! q) = name (h' ! q)
        \<and> parent (?h ! q) = parent (h' ! q) \<and> wildcardChild (?h ! q) = wildcardChild (h' ! q)
        \<and> terminatingWildcardChild (?h ! q) = terminatingWildcardChild (h' ! q)
        \<and> messages (?h ! q) = messages (h' ! q) \<and> triggered (?h ! q) = triggered (h' ! q)" if "q < length h'" for q
    using that by (cases "q = t") simp_all
  have 1: "tree_ok ?h" using f by (intro tree_ok_cong[OF _ _ p(1)]) simp_all
  have "set_insert x xs \<noteq> []" for xs :: "sptr list" by (cases xs) auto
  then have nu: "\<not> is_unused (?h ! t)" using p(2) by (simp add: is_unused_def)
  have 2: "trimmed ?h"
    unfolding trimmed_iff
  proof (intro allI impI)
    fix q k c assume q: "q < length ?h" and kc: "(k, c) \<in> set (children (?h ! q))"
    with f[of q] have "(k, c) \<in> set (children (h' ! q))" by simp
    with p(4) q have "c = t \<or> \<not> is_unused (h' ! c)" unfolding trimmed_except_iff by auto
    with nu show "\<not> is_unused (?h ! c)" by (cases "c = t") auto
  qed
  have 3: "t' \<noteq> root \<and> t' < length ?h" if "t' \<in> set (((subscriptions s)(x := subscriptions s x @ [t])) y)" for y t'
  proof (cases "t' = t")
    case True
    with p(2,3) show ?thesis by simp
  next
    case False
    with that have "t' \<in> set (subscriptions s y)" by (auto split: if_splits)
    from d(3)[OF this] p(5) show ?thesis by simp
  qed
  have 4: "fst km < messageId s" if "q < length ?h" "km \<in> set (messages (?h ! q))" for q km
  proof (cases "q < length (heap s)")
    case True
    with that f[of q] p(6) have "km \<in> set (messages (heap s ! q))" by simp
    from d(4)[OF True this] show ?thesis .
  next
    case False
    with that f[of q] p(7) show ?thesis by auto
  qed
  have 5: "q \<in> set (triggeredTopics s)" if "q < length ?h" "triggered (?h ! q)" for q
  proof (cases "q < length (heap s)")
    case True
    with that f[of q] p(6) have "triggered (heap s ! q)" by simp
    from d(5)[OF True this] show ?thesis .
  next
    case False
    with that f[of q] p(7) show ?thesis by auto
  qed
  have 6: "q < length ?h" if "q \<in> set (triggeredTopics s)" for q
    using d(6)[OF that] p(5) by simp
  have "well_formed ?s"
    using 1 2 3 4 5 6 by (intro well_formedI) simp_all
  then show ?thesis unfolding s1 .
qed

subsection \<open>publish and drain keep the invariant\<close>

text \<open>\<open>publish\<close> and \<open>drain\<close> write messages and flags only.\<close>

lemma map_update_same: "f x = f (h ! t) \<Longrightarrow> map f (h[t := x]) = map f h"
  by (cases "t < length h") (simp_all add: map_update list_update_same_conv list_update_beyond)

lemma map_of_map_assign: "map_of (map_assign k v m) k = Some v"
  by (induction m) auto

lemma map_assign_idem: "map_assign k v (map_assign k v m) = map_assign k v m"
  by (induction m) auto

lemma set_map_assign: "set (map_assign k v m) \<subseteq> insert (k, v) (set m)"
  by (induction m) (auto split: if_splits)

lemma publish_rel_refl: "publish_rel M s s"
  by (simp add: publish_rel_def)

lemma publish_rel_trans: "publish_rel M s1 s2 \<Longrightarrow> publish_rel M s2 s3 \<Longrightarrow> publish_rel M s1 s3"
proof -
  assume a: "publish_rel M s1 s2" and b: "publish_rel M s2 s3"
  from a have "length (map skeleton (heap s2)) = length (map skeleton (heap s1))"
    by (simp add: publish_rel_def)
  then have l: "length (heap s2) = length (heap s1)" by simp
  have "(triggered (heap s1 ! t) \<longrightarrow> triggered (heap s3 ! t))
         \<and> (triggered (heap s3 ! t) \<longrightarrow> triggered (heap s1 ! t) \<or> t \<in> set (triggeredTopics s3))
         \<and> (messages (heap s3 ! t) = messages (heap s1 ! t)
            \<or> messages (heap s3 ! t) = map_assign (messageId s1) M (messages (heap s1 ! t)))"
    if t: "t < length (heap s1)" for t
  proof -
    from a t have a1: "triggered (heap s1 ! t) \<longrightarrow> triggered (heap s2 ! t)"
      and a2: "triggered (heap s2 ! t) \<longrightarrow> triggered (heap s1 ! t) \<or> t \<in> set (triggeredTopics s2)"
      and a3: "messages (heap s2 ! t) = messages (heap s1 ! t)
            \<or> messages (heap s2 ! t) = map_assign (messageId s1) M (messages (heap s1 ! t))"
      by (simp_all add: publish_rel_def)
    from b t l have b1: "triggered (heap s2 ! t) \<longrightarrow> triggered (heap s3 ! t)"
      and b2: "triggered (heap s3 ! t) \<longrightarrow> triggered (heap s2 ! t) \<or> t \<in> set (triggeredTopics s3)"
      and b3: "messages (heap s3 ! t) = messages (heap s2 ! t)
            \<or> messages (heap s3 ! t) = map_assign (messageId s2) M (messages (heap s2 ! t))"
      by (simp_all add: publish_rel_def)
    from a b have id: "messageId s2 = messageId s1" and sub: "set (triggeredTopics s2) \<subseteq> set (triggeredTopics s3)"
      by (simp_all add: publish_rel_def)
    from a3 b3 id have "messages (heap s3 ! t) = messages (heap s1 ! t)
            \<or> messages (heap s3 ! t) = map_assign (messageId s1) M (messages (heap s1 ! t))"
      by (auto simp: map_assign_idem)
    with a1 a2 b1 b2 sub show ?thesis by blast
  qed
  with a b show ?thesis unfolding publish_rel_def by auto
qed

lemma store_trigger_rel: "store_trigger t M s = Inr s' \<Longrightarrow> publish_rel M s s'"
proof -
  assume a: "store_trigger t M s = Inr s'"
  let ?h = "(heap s)[t := (heap s ! t)\<lparr>messages := map_assign (messageId s) M (messages (heap s ! t))\<rparr>]"
  let ?h2 = "?h[t := (?h ! t)\<lparr>triggered := True\<rparr>]"
  have sk: "map skeleton ?h = map skeleton (heap s)"
    by (rule map_update_same) (simp add: skeleton_def)
  have sk2: "map skeleton ?h2 = map skeleton ?h"
    by (rule map_update_same) (simp add: skeleton_def)
  have f1: "(triggered (heap s ! u) \<longrightarrow> triggered (?h ! u))
        \<and> (triggered (?h ! u) \<longrightarrow> triggered (heap s ! u))
        \<and> (messages (?h ! u) = messages (heap s ! u)
            \<or> messages (?h ! u) = map_assign (messageId s) M (messages (heap s ! u)))"
      if "u < length (heap s)" for u
      using that by (cases "u = t") simp_all
  have f2: "(triggered (heap s ! u) \<longrightarrow> triggered (?h2 ! u))
        \<and> (triggered (?h2 ! u) \<longrightarrow> triggered (heap s ! u) \<or> u = t)
        \<and> (messages (?h2 ! u) = messages (heap s ! u)
            \<or> messages (?h2 ! u) = map_assign (messageId s) M (messages (heap s ! u)))"
      if "u < length (heap s)" for u
      using that by (cases "u = t") simp_all
  show ?thesis
  proof (cases "triggered (?h ! t)")
    case True
    with a have 1: "s' = s\<lparr>heap := ?h\<rparr>" by (simp add: store_trigger_def Let_def)
    from sk f1 show ?thesis unfolding publish_rel_def 1 by simp
  next
    case False
    with a obtain x xs where sb: "subs (?h ! t) = x # xs"
      by (cases "subs (?h ! t)") (simp_all add: store_trigger_def Let_def split: if_splits)
    with a False have 2: "s' = s\<lparr>heap := ?h2, triggeredTopics := triggeredTopics s @ [t],
        min_sub := (if x < min_sub s then x else min_sub s)\<rparr>"
      by (simp add: store_trigger_def Let_def split: if_splits)
    from sk sk2 have "map skeleton ?h2 = map skeleton (heap s)" by simp
    with f2 show ?thesis unfolding publish_rel_def 2 by auto
  qed
qed

lemma store_trigger_stores:
  assumes "store_trigger t M s = Inr s'" and "t < length (heap s)"
    and "triggered (heap s ! t) \<longrightarrow> t \<in> set (triggeredTopics s)"
  shows "messages (heap s' ! t) = map_assign (messageId s) M (messages (heap s ! t))"
    and "triggered (heap s' ! t)" and "t \<in> set (triggeredTopics s')"
  using assms by (auto simp: store_trigger_def Let_def split: if_splits list.splits)

lemma store_trigger_frame:
  "store_trigger t M s = Inr s' \<Longrightarrow> u \<noteq> t \<Longrightarrow> heap s' ! u = heap s ! u"
  by (auto simp: store_trigger_def Let_def split: if_splits list.splits)

lemma publish_walk_rel: "publish_walk i r M s = Inr s' \<Longrightarrow> publish_rel M s s'"
proof (induction i r M s arbitrary: s' rule: publish_walk.induct)
  case (1 iterator message s)
  then show ?case by (simp add: store_trigger_rel)
next
  case (2 iterator r message s)
  from "2.prems" obtain s1 where
    s1: "(case terminatingWildcardChild (heap s ! iterator) of
              None \<Rightarrow> Inr s | Some t \<Rightarrow> store_trigger t message s) = Inr s1"
    by (auto split: sum.splits)
  with "2.prems" obtain s2 where
    s2: "(case wildcardChild (heap s1 ! iterator) of
                   None \<Rightarrow> Inr s1
                 | Some w \<Rightarrow> publish_walk w (after_slash r) message s1) = Inr s2"
    by (auto split: sum.splits)
  with s1 "2.prems" have
    s3: "(case map_of (children (heap s2 ! iterator)) (segment r) of
                  None \<Rightarrow> Inr s2
                | Some c \<Rightarrow> publish_walk c (after_slash r) message s2) = Inr s'"
    by simp
  from s1 have r1: "publish_rel message s s1"
    by (auto simp: publish_rel_refl store_trigger_rel split: option.splits)
  from s2 "2.IH"(1)[OF s1] have r2: "publish_rel message s1 s2"
    by (auto simp: publish_rel_refl split: option.splits)
  from s3 "2.IH"(2)[OF s1 s2] have r3: "publish_rel message s2 s'"
    by (auto simp: publish_rel_refl split: option.splits)
  from r1 r2 r3 show ?case by (blast intro: publish_rel_trans)
qed

lemma tree_ok_wild:
  assumes "tree_ok h" and "p < length h"
  shows "wildcardChild (h ! p) = Some w \<Longrightarrow> w < length h \<and> parent (h ! w) = Some p"
    and "terminatingWildcardChild (h ! p) = Some w \<Longrightarrow> w < length h \<and> parent (h ! w) = Some p"
    and "wildcardChild (h ! p) = map_of (children (h ! p)) ''+''"
    and "terminatingWildcardChild (h ! p) = map_of (children (h ! p)) ''#''"
proof -
  from assms have o: "node_ok h p" by (simp add: tree_ok_iff)
  then show w: "wildcardChild (h ! p) = map_of (children (h ! p)) ''+''"
    and t: "terminatingWildcardChild (h ! p) = map_of (children (h ! p)) ''#''"
    by (simp_all add: node_ok_iff)
  show "wildcardChild (h ! p) = Some w \<Longrightarrow> w < length h \<and> parent (h ! w) = Some p"
    using tree_ok_lookup(1,2)[OF assms, of "''+''" w] w by simp
  show "terminatingWildcardChild (h ! p) = Some w \<Longrightarrow> w < length h \<and> parent (h ! w) = Some p"
    using tree_ok_lookup(1,2)[OF assms, of "''#''" w] t by simp
qed

lemma store_trigger_tts:
  "store_trigger t M s = Inr s' \<Longrightarrow> set (triggeredTopics s') \<subseteq> insert t (set (triggeredTopics s))"
  by (auto simp: store_trigger_def Let_def split: if_splits list.splits)

lemma publish_walk_valid:
  assumes "publish_walk i r M s = Inr s'" and "tree_ok (heap s)" and "i < length (heap s)"
  shows "set (triggeredTopics s') \<subseteq> set (triggeredTopics s) \<union> {t. t < length (heap s)}"
  using assms
proof (induction i r M s arbitrary: s' rule: publish_walk.induct)
  case (1 iterator message s)
  with store_trigger_tts[of iterator message s s'] show ?case by auto
next
  case (2 iterator r message s)
  from "2.prems"(1) obtain s1 where
    s1: "(case terminatingWildcardChild (heap s ! iterator) of
              None \<Rightarrow> Inr s | Some t \<Rightarrow> store_trigger t message s) = Inr s1"
    by (auto split: sum.splits)
  with "2.prems"(1) obtain s2 where
    s2: "(case wildcardChild (heap s1 ! iterator) of
                   None \<Rightarrow> Inr s1
                 | Some w \<Rightarrow> publish_walk w (after_slash r) message s1) = Inr s2"
    by (auto split: sum.splits)
  with s1 "2.prems"(1) have
    s3: "(case map_of (children (heap s2 ! iterator)) (segment r) of
                  None \<Rightarrow> Inr s2
                | Some c \<Rightarrow> publish_walk c (after_slash r) message s2) = Inr s'"
    by simp
  from s1 have r1: "publish_rel message s s1"
    by (auto simp: publish_rel_refl store_trigger_rel split: option.splits)
  from s2 have r2: "publish_rel message s1 s2"
    by (auto simp: publish_rel_refl publish_walk_rel split: option.splits)
  from r1 have sk1: "map skeleton (heap s1) = map skeleton (heap s)" by (simp add: publish_rel_def)
  from r2 have sk2: "map skeleton (heap s2) = map skeleton (heap s1)" by (simp add: publish_rel_def)
  note l1 = skeleton_eq_length[OF sk1]
  note l2 = skeleton_eq_length[OF sk2]
  from skeleton_tree[OF sk1 "2.prems"(2)] have ok1: "tree_ok (heap s1)" .
  from skeleton_tree[OF sk2 ok1] have ok2: "tree_ok (heap s2)" .
  from "2.prems"(3) l1 l2 have i1: "iterator < length (heap s1)" and i2: "iterator < length (heap s2)"
    by simp_all
  have t1: "set (triggeredTopics s1) \<subseteq> set (triggeredTopics s) \<union> {t. t < length (heap s)}"
  proof (cases "terminatingWildcardChild (heap s ! iterator)")
    case None
    with s1 show ?thesis by auto
  next
    case (Some t)
    from tree_ok_wild(2)[OF "2.prems"(2,3) Some] have "t < length (heap s)" by simp
    with Some s1 store_trigger_tts[of t message s s1] show ?thesis by auto
  qed
  have t2: "set (triggeredTopics s2) \<subseteq> set (triggeredTopics s1) \<union> {t. t < length (heap s)}"
  proof (cases "wildcardChild (heap s1 ! iterator)")
    case None
    with s2 show ?thesis by auto
  next
    case (Some w)
    from tree_ok_wild(1)[OF ok1 i1 Some] have w: "w < length (heap s1)" by simp
    from Some s2 have "publish_walk w (after_slash r) message s1 = Inr s2" by simp
    from "2.IH"(1)[OF s1 Some this ok1 w] l1 show ?thesis by simp
  qed
  have t3: "set (triggeredTopics s') \<subseteq> set (triggeredTopics s2) \<union> {t. t < length (heap s)}"
  proof (cases "map_of (children (heap s2 ! iterator)) (segment r)")
    case None
    with s3 show ?thesis by auto
  next
    case (Some c)
    from tree_ok_lookup(1)[OF ok2 i2 Some] have c: "c < length (heap s2)" .
    from Some s3 have "publish_walk c (after_slash r) message s2 = Inr s'" by simp
    from "2.IH"(2)[OF s1 s2 Some this ok2 c] l1 l2 show ?thesis by simp
  qed
  from t1 t2 t3 show ?case by blast
qed

lemma well_formed_publish: "well_formed s \<Longrightarrow> publish topic M s = Inr s' \<Longrightarrow> well_formed s'"
proof -
  assume wf: "well_formed s" and p: "publish topic M s = Inr s'"
  note d = well_formedD[OF wf]
  from p obtain s1 where w: "publish_walk root (Some topic) M s = Inr s1"
    and s': "s' = s1\<lparr>messageId := messageId s1 + 1\<rparr>"
    by (auto simp: publish_def split: sum.splits if_splits)
  from publish_walk_rel[OF w] have rel: "publish_rel M s s1" .
  then have sk: "map skeleton (heap s1) = map skeleton (heap s)"
    and sub: "subscriptions s1 = subscriptions s" and id: "messageId s1 = messageId s"
    and tt: "set (triggeredTopics s) \<subseteq> set (triggeredTopics s1)"
    and pt: "\<And>t. t < length (heap s) \<Longrightarrow>
           (triggered (heap s1 ! t) \<longrightarrow> triggered (heap s ! t) \<or> t \<in> set (triggeredTopics s1))
         \<and> (messages (heap s1 ! t) = messages (heap s ! t)
            \<or> messages (heap s1 ! t) = map_assign (messageId s) M (messages (heap s ! t)))"
    by (simp_all add: publish_rel_def)
  from skeleton_eq_length[OF sk] have l: "length (heap s1) = length (heap s)" by simp
  have 1: "tree_ok (heap s1)" by (rule skeleton_tree[OF sk d(1)])
  have 2: "trimmed (heap s1)" by (rule skeleton_trimmed[OF sk d(1,2)])
  have 3: "fst km < messageId s + 1" if "t < length (heap s)" "km \<in> set (messages (heap s1 ! t))" for t km
  proof -
    from pt[OF that(1)] that(2) set_map_assign[of "messageId s" M "messages (heap s ! t)"]
    have "km \<in> set (messages (heap s ! t)) \<or> km = (messageId s, M)" by auto
    then show ?thesis
    proof
      assume "km \<in> set (messages (heap s ! t))"
      from d(4)[OF that(1) this] show ?thesis by simp
    qed simp
  qed
  have 4: "t \<in> set (triggeredTopics s1)" if "t < length (heap s)" "triggered (heap s1 ! t)" for t
    using pt[OF that(1)] that(2) d(5)[OF that(1)] tt by auto
  have 5: "t \<noteq> root \<and> t < length (heap s1)" if "t \<in> set (subscriptions s1 x)" for x t
    using that d(3)[of t x] sub l by simp
  from d(1) have "root < length (heap s)" by (simp add: tree_ok_iff root_def)
  from publish_walk_valid[OF w d(1) this] d(6)
  have 6: "t < length (heap s)" if "t \<in> set (triggeredTopics s1)" for t
    using that by blast
  have "well_formed (s1\<lparr>messageId := messageId s1 + 1\<rparr>)"
    using 1 2 3 4 5 6 l id by (intro well_formedI) simp_all
  then show ?thesis unfolding s' .
qed

lemma skeleton_fold_clear: "map skeleton (fold clear_topic ts h) = map skeleton h"
proof (induction ts arbitrary: h)
  case (Cons a ts)
  have "map skeleton (clear_topic a h) = map skeleton h"
    unfolding clear_topic_def by (rule map_update_same) (simp add: skeleton_def)
  with Cons show ?case by simp
qed simp

lemma well_formed_drain: "well_formed s \<Longrightarrow> drain s = Some (Inr (log, s')) \<Longrightarrow> well_formed s'"
proof (cases "triggeredTopics s = []")
  case True
  assume "well_formed s" "drain s = Some (Inr (log, s'))"
  with True show ?thesis by (simp add: drain_def)
next
  case False
  assume wf: "well_formed s" and dr: "drain s = Some (Inr (log, s'))"
  note d = well_formedD[OF wf]
  let ?h = "fold clear_topic (triggeredTopics s) (heap s)"
  from False dr obtain m where
    s': "s' = s\<lparr>heap := ?h, triggeredTopics := [], min_sub := m\<rparr>"
    by (auto simp: drain_def split: option.splits sum.splits)
  have sk: "map skeleton ?h = map skeleton (heap s)" by (rule skeleton_fold_clear)
  from skeleton_eq_length[OF sk] have l: "length ?h = length (heap s)" by simp
  have 1: "tree_ok ?h" by (rule skeleton_tree[OF sk d(1)])
  have 2: "trimmed ?h" by (rule skeleton_trimmed[OF sk d(1,2)])
  have keep: "messages (fold clear_topic ts h ! t) = messages (h ! t)
        \<and> triggered (fold clear_topic ts h ! t) = triggered (h ! t)" if "t \<notin> set ts" for ts h t
    using that by (induction ts arbitrary: h) (auto simp: clear_topic_def)
  have 3: "set (messages (?h ! t)) \<subseteq> set (messages (heap s ! t)) \<and> \<not> triggered (?h ! t)" if t: "t < length (heap s)" for t
  proof (cases "t \<in> set (triggeredTopics s)")
    case True
    with t have "messages (?h ! t) = [] \<and> \<not> triggered (?h ! t)" by (intro fold_clear_topic) simp_all
    then show ?thesis by simp
  next
    case False
    with d(5)[OF t] have nt: "\<not> triggered (heap s ! t)" by auto
    from keep[OF False] nt show ?thesis by simp
  qed
  have 4: "fst km < messageId s" if "t < length (heap s)" "km \<in> set (messages (?h ! t))" for t km
    using 3[OF that(1)] that(2) d(4)[OF that(1), of km] by auto
  have 5: "t \<noteq> root \<and> t < length ?h" if "t \<in> set (subscriptions s x)" for x t
    using that d(3)[of t x] l by simp
  have "well_formed (s\<lparr>heap := ?h, triggeredTopics := [], min_sub := m\<rparr>)"
    using 1 2 3 4 5 l by (intro well_formedI) simp_all
  then show ?thesis unfolding s' .
qed

subsection \<open>unsubscribeAll keeps the invariant\<close>

text \<open>
  \<open>trimTree\<close> ends, because the parent of a topic was allocated before the topic, and it
  stops below the root, because every topic other than the root has a parent. When it has
  detached an unused topic, only the parent can be unused in a child map.
\<close>

lemma unsub_relD:
  assumes "unsub_rel h h'"
  shows "length h' = length h"
    and "\<And>p. p < length h \<Longrightarrow> name (h' ! p) = name (h ! p)"
    and "\<And>p. p < length h \<Longrightarrow> parent (h' ! p) = parent (h ! p)"
    and "\<And>p. p < length h \<Longrightarrow> messages (h' ! p) = messages (h ! p)"
    and "\<And>p. p < length h \<Longrightarrow> triggered (h' ! p) = triggered (h ! p)"
    and "\<And>p. p < length h \<Longrightarrow> set (subs (h' ! p)) \<subseteq> set (subs (h ! p))"
    and "\<And>p. p < length h \<Longrightarrow> set (children (h' ! p)) \<subseteq> set (children (h ! p))"
    and "\<And>p kc. p < length h \<Longrightarrow> kc \<in> set (children (h ! p)) \<Longrightarrow> kc \<notin> set (children (h' ! p)) \<Longrightarrow>
            \<exists>u<length h. is_unused (h' ! u) \<and> parent (h' ! u) = Some p \<and> name (h' ! u) = fst kc"
  using assms unfolding unsub_rel_def by blast+

lemma unsub_relI:
  assumes "length h' = length h"
    and "\<And>p. p < length h \<Longrightarrow> name (h' ! p) = name (h ! p)"
    and "\<And>p. p < length h \<Longrightarrow> parent (h' ! p) = parent (h ! p)"
    and "\<And>p. p < length h \<Longrightarrow> messages (h' ! p) = messages (h ! p)"
    and "\<And>p. p < length h \<Longrightarrow> triggered (h' ! p) = triggered (h ! p)"
    and "\<And>p. p < length h \<Longrightarrow> set (subs (h' ! p)) \<subseteq> set (subs (h ! p))"
    and "\<And>p. p < length h \<Longrightarrow> set (children (h' ! p)) \<subseteq> set (children (h ! p))"
    and "\<And>p kc. p < length h \<Longrightarrow> kc \<in> set (children (h ! p)) \<Longrightarrow> kc \<notin> set (children (h' ! p)) \<Longrightarrow>
            \<exists>u<length h. is_unused (h' ! u) \<and> parent (h' ! u) = Some p \<and> name (h' ! u) = fst kc"
  shows "unsub_rel h h'"
  unfolding unsub_rel_def using assms by blast

lemma unsub_rel_refl: "unsub_rel h h"
  by (simp add: unsub_rel_def)

lemma unused_mono:
  assumes "unsub_rel h h'" and "tree_ok h'" and "u < length h" and "is_unused (h ! u)"
  shows "is_unused (h' ! u)"
proof -
  from assms(1,3) have l: "u < length h'" and s: "set (subs (h' ! u)) \<subseteq> set (subs (h ! u))"
    and c: "set (children (h' ! u)) \<subseteq> set (children (h ! u))"
    by (simp_all add: unsub_rel_def)
  from assms(2) l have "node_ok h' u" by (simp add: tree_ok_iff)
  with c s assms(4) show ?thesis by (simp add: is_unused_def node_ok_iff)
qed

lemma unsub_rel_trans:
  assumes "unsub_rel h1 h2" and "unsub_rel h2 h3" and "tree_ok h3"
  shows "unsub_rel h1 h3"
proof (rule unsub_relI)
  note a = unsub_relD[OF assms(1)]
  note b = unsub_relD[OF assms(2)]
  show "length h3 = length h1" using a(1) b(1) by simp
  fix p assume p: "p < length h1"
  then have p2: "p < length h2" using a(1) by simp
  show "name (h3 ! p) = name (h1 ! p)" using a(2)[OF p] b(2)[OF p2] by simp
  show "parent (h3 ! p) = parent (h1 ! p)" using a(3)[OF p] b(3)[OF p2] by simp
  show "messages (h3 ! p) = messages (h1 ! p)" using a(4)[OF p] b(4)[OF p2] by simp
  show "triggered (h3 ! p) = triggered (h1 ! p)" using a(5)[OF p] b(5)[OF p2] by simp
  show "set (subs (h3 ! p)) \<subseteq> set (subs (h1 ! p))" using a(6)[OF p] b(6)[OF p2] by blast
  show "set (children (h3 ! p)) \<subseteq> set (children (h1 ! p))" using a(7)[OF p] b(7)[OF p2] by blast
  fix kc assume kc: "kc \<in> set (children (h1 ! p))" and n: "kc \<notin> set (children (h3 ! p))"
  show "\<exists>u<length h1. is_unused (h3 ! u) \<and> parent (h3 ! u) = Some p \<and> name (h3 ! u) = fst kc"
  proof (cases "kc \<in> set (children (h2 ! p))")
    case True
    from b(8)[OF p2 True n] a(1) show ?thesis by simp
  next
    case False
    from a(8)[OF p kc False] obtain u where u: "u < length h1" "is_unused (h2 ! u)"
      "parent (h2 ! u) = Some p" "name (h2 ! u) = fst kc"
      by blast
    from u(1) a(1) have u2: "u < length h2" by simp
    from unused_mono[OF assms(2,3) u2 u(2)] have "is_unused (h3 ! u)" .
    moreover from b(2)[OF u2] b(3)[OF u2] u(3,4) have "parent (h3 ! u) = Some p" "name (h3 ! u) = fst kc"
      by simp_all
    ultimately show ?thesis using u(1) by blast
  qed
qed

lemma tree_ok_update:
  assumes "tree_ok h" and "q < length h" and "name x = name (h ! q)" and "parent x = parent (h ! q)"
    and "set (children x) \<subseteq> set (children (h ! q))" and "distinct (map fst (children x))"
    and "wildcardChild x = map_of (children x) ''+''"
    and "terminatingWildcardChild x = map_of (children x) ''#''"
  shows "tree_ok (h[q := x])"
proof -
  let ?h = "h[q := x]"
  have same: "name (?h ! c) = name (h ! c) \<and> parent (?h ! c) = parent (h ! c)" if "c < length h" for c
    using that assms(3,4) by (cases "c = q") simp_all
  have "node_ok ?h p" if p: "p < length h" for p
  proof -
    from assms(1) p have o: "node_ok h p" by (simp add: tree_ok_iff)
    have sub: "set (children (?h ! p)) \<subseteq> set (children (h ! p))"
      using assms(5) p by (cases "p = q") simp_all
    have "c < length ?h \<and> parent (?h ! c) = Some p \<and> name (?h ! c) = k"
      if "(k, c) \<in> set (children (?h ! p))" for k c
    proof -
      from that sub have "(k, c) \<in> set (children (h ! p))" by blast
      from tree_ok_child[OF assms(1) p this] same[of c] show ?thesis by simp
    qed
    moreover have "distinct (map fst (children (?h ! p)))
        \<and> wildcardChild (?h ! p) = map_of (children (?h ! p)) ''+''
        \<and> terminatingWildcardChild (?h ! p) = map_of (children (?h ! p)) ''#''"
      using o assms(6,7,8) p by (cases "p = q") (simp_all add: node_ok_iff)
    moreover have "(case parent (?h ! p) of None \<Rightarrow> p = root | Some r \<Rightarrow> r < p)"
      using o same[OF p] by (simp add: node_ok_iff)
    ultimately show ?thesis unfolding node_ok_iff by blast
  qed
  with assms(1) show ?thesis by (auto simp: tree_ok_iff)
qed

lemma detach_step:
  assumes "tree_ok h" and "trimmed_except t h" and "t < length h" and "is_unused (h ! t)"
    and "parent (h ! t) = Some q"
  shows "tree_ok (h[q := detach (name (h ! t)) (h ! q)])"
    and "trimmed_except q (h[q := detach (name (h ! t)) (h ! q)])"
    and "unsub_rel h (h[q := detach (name (h ! t)) (h ! q)])"
    and "\<forall>p<length h. subs (h[q := detach (name (h ! t)) (h ! q)] ! p) = subs (h ! p)"
proof -
  let ?nm = "name (h ! t)"
  let ?x = "detach ?nm (h ! q)"
  let ?h = "h[q := ?x]"
  from assms(1,3) have "node_ok h t" by (simp add: tree_ok_iff)
  with assms(5) have qt: "q < t" by (simp add: node_ok_iff)
  with assms(3) have q: "q < length h" by simp
  from assms(1) q have oq: "node_ok h q" by (simp add: tree_ok_iff)
  have ch: "set (children ?x) = {kc \<in> set (children (h ! q)). fst kc \<noteq> ?nm}"
    by (simp add: set_map_erase)
  show ok: "tree_ok ?h"
  proof (rule tree_ok_update[OF assms(1) q])
    show "set (children ?x) \<subseteq> set (children (h ! q))" using ch by auto
    show "distinct (map fst (children ?x))" using oq by (simp add: node_ok_iff distinct_map_erase)
    show "wildcardChild ?x = map_of (children ?x) ''+''"
      using oq by (simp add: node_ok_iff map_of_map_erase)
    show "terminatingWildcardChild ?x = map_of (children ?x) ''#''"
      using oq by (simp add: node_ok_iff map_of_map_erase)
  qed simp_all
  have sub: "set (children (?h ! p)) \<subseteq> set (children (h ! p))" if "p < length h" for p
    using that ch by (cases "p = q") auto
  have t_out: "c \<noteq> t" if "p < length h" "(k, c) \<in> set (children (?h ! p))" for p k c
  proof
    assume "c = t"
    with that sub have kt: "(k, t) \<in> set (children (h ! p))" by blast
    from tree_ok_child(2,3)[OF assms(1) that(1) kt] assms(5) have "p = q" "k = ?nm" by simp_all
    with that(2) q ch show False by simp
  qed
  show "trimmed_except q ?h"
    unfolding trimmed_except_iff
  proof (intro allI impI)
    fix p k c assume p: "p < length ?h" and kc: "(k, c) \<in> set (children (?h ! p))"
    then have pl: "p < length h" by simp
    from kc sub[OF pl] have old: "(k, c) \<in> set (children (h ! p))" by blast
    from t_out[OF pl kc] have "c \<noteq> t" .
    with assms(2) pl old have "\<not> is_unused (h ! c)" unfolding trimmed_except_iff by blast
    then show "c = q \<or> \<not> is_unused (?h ! c)" by (cases "c = q") simp_all
  qed
  have tq: "?h ! t = h ! t" using qt by simp
  show "unsub_rel h ?h"
    unfolding unsub_rel_def
  proof (intro conjI allI impI ballI)
    fix p kc assume p: "p < length h" and kc: "kc \<in> set (children (h ! p)) - set (children (?h ! p))"
    have pq: "p = q" using kc p by (cases "p = q") simp_all
    with kc q ch have "fst kc = ?nm" by auto
    with pq tq assms(3,4,5) show "\<exists>u<length h. is_unused (?h ! u) \<and> parent (?h ! u) = Some p \<and> name (?h ! u) = fst kc"
      by (intro exI[of _ t]) simp
  next
    fix p assume p: "p < length h"
    show "set (children (?h ! p)) \<subseteq> set (children (h ! p))" by (rule sub[OF p])
    show "name (?h ! p) = name (h ! p)" using p by (cases "p = q") simp_all
    show "parent (?h ! p) = parent (h ! p)" using p by (cases "p = q") simp_all
    show "messages (?h ! p) = messages (h ! p)" using p by (cases "p = q") simp_all
    show "triggered (?h ! p) = triggered (h ! p)" using p by (cases "p = q") simp_all
    show "set (subs (?h ! p)) \<subseteq> set (subs (h ! p))" using p by (cases "p = q") simp_all
  qed simp
  show "\<forall>p<length h. subs (?h ! p) = subs (h ! p)"
  proof (intro allI impI)
    fix p assume "p < length h"
    then show "subs (?h ! p) = subs (h ! p)" by (cases "p = q") simp_all
  qed
qed

lemma trimTree_ok:
  assumes "tree_ok h" and "trimmed_except t h" and "t < length h" and "t \<noteq> root"
  shows "\<exists>h'. trimTree t h = Some (Inr h') \<and> tree_ok h' \<and> trimmed h' \<and> unsub_rel h h'
     \<and> (\<forall>p<length h. subs (h' ! p) = subs (h ! p))"
  using assms
proof (induction t arbitrary: h rule: less_induct)
  case (less t)
  show ?case
  proof (cases "is_unused (h ! t)")
    case False
    then have "trimTree t h = Some (Inr h)" by (subst trimTree.simps) simp
    moreover from False less.prems(2) have "trimmed h"
      unfolding trimmed_except_iff trimmed_iff by blast
    ultimately show ?thesis using less.prems(1) by (simp add: unsub_rel_refl)
  next
    case True
    from less.prems(1,3) have "node_ok h t" by (simp add: tree_ok_iff)
    with less.prems(4) obtain q where pq: "parent (h ! t) = Some q" and qt: "q < t"
      by (auto simp: node_ok_iff split: option.splits)
    let ?h = "h[q := detach (name (h ! t)) (h ! q)]"
    note st = detach_step[OF less.prems(1,2,3) True pq]
    show ?thesis
    proof (cases "q = root")
      case r: True
      from True pq r have "trimTree t h = Some (Inr ?h)" by (subst trimTree.simps) simp
      moreover from st(1,2) r have "trimmed ?h" by (simp add: trimmed_except_root)
      ultimately show ?thesis using st by simp
    next
      case r: False
      from True pq r have e: "trimTree t h = trimTree q ?h" by (subst trimTree.simps) simp
      from qt less.prems(3) have "q < length ?h" by simp
      from less.IH[OF qt st(1,2) this r] obtain h' where
        h': "trimTree q ?h = Some (Inr h')" "tree_ok h'" "trimmed h'" "unsub_rel ?h h'"
          "\<forall>p<length ?h. subs (h' ! p) = subs (?h ! p)"
        by blast
      from unsub_rel_trans[OF st(3) h'(4,2)] have "unsub_rel h h'" .
      moreover from h'(5) st(4) have "\<forall>p<length h. subs (h' ! p) = subs (h ! p)" by simp
      ultimately show ?thesis using e h' by simp
    qed
  qed
qed

lemma unsubscribe_each_ok:
  assumes "tree_ok h" and "trimmed h" and "\<forall>t\<in>set ts. t \<noteq> root \<and> t < length h"
  shows "\<exists>h'. unsubscribe_each x ts h = Some (Inr h') \<and> tree_ok h' \<and> trimmed h' \<and> unsub_rel h h'
     \<and> (\<forall>p<length h. subs (h' ! p) = (if p \<in> set ts then removeAll x (subs (h ! p)) else subs (h ! p)))"
  using assms
proof (induction ts arbitrary: h)
  case Nil
  then show ?case by (simp add: unsub_rel_refl)
next
  case (Cons t ts)
  let ?h1 = "h[t := (h ! t)\<lparr>subs := removeAll x (subs (h ! t))\<rparr>]"
  from Cons.prems(3) have t: "t \<noteq> root" "t < length h" by simp_all
  have f: "children (?h1 ! p) = children (h ! p) \<and> name (?h1 ! p) = name (h ! p)
        \<and> parent (?h1 ! p) = parent (h ! p) \<and> wildcardChild (?h1 ! p) = wildcardChild (h ! p)
        \<and> terminatingWildcardChild (?h1 ! p) = terminatingWildcardChild (h ! p)
        \<and> messages (?h1 ! p) = messages (h ! p) \<and> triggered (?h1 ! p) = triggered (h ! p)
        \<and> subs (?h1 ! p) = (if p = t then removeAll x (subs (h ! p)) else subs (h ! p))" if "p < length h" for p
    using that by (cases "p = t") simp_all
  have ok1: "tree_ok ?h1" using f by (intro tree_ok_cong[OF _ _ Cons.prems(1)]) simp_all
  have tr1: "trimmed_except t ?h1"
    unfolding trimmed_except_iff
  proof (intro allI impI)
    fix p k c assume p: "p < length ?h1" and kc: "(k, c) \<in> set (children (?h1 ! p))"
    with f[of p] have old: "(k, c) \<in> set (children (h ! p))" by simp
    with Cons.prems(2) p have "\<not> is_unused (h ! c)" unfolding trimmed_iff by auto
    then show "c = t \<or> \<not> is_unused (?h1 ! c)" by (cases "c = t") simp_all
  qed
  have r1: "unsub_rel h ?h1"
    unfolding unsub_rel_def using f by auto
  from trimTree_ok[OF ok1 tr1 _ t(1)] t(2) obtain h2 where
    h2: "trimTree t ?h1 = Some (Inr h2)" "tree_ok h2" "trimmed h2" "unsub_rel ?h1 h2"
      "\<forall>p<length ?h1. subs (h2 ! p) = subs (?h1 ! p)"
    by auto
  from h2(4) have l2: "length h2 = length h" by (simp add: unsub_rel_def)
  with Cons.prems(3) have "\<forall>t\<in>set ts. t \<noteq> root \<and> t < length h2" by simp
  from Cons.IH[OF h2(2,3) this] obtain h' where
    h': "unsubscribe_each x ts h2 = Some (Inr h')" "tree_ok h'" "trimmed h'" "unsub_rel h2 h'"
      "\<forall>p<length h2. subs (h' ! p) = (if p \<in> set ts then removeAll x (subs (h2 ! p)) else subs (h2 ! p))"
    by blast
  from h2(1) h'(1) have "unsubscribe_each x (t # ts) h = Some (Inr h')" by simp
  moreover from unsub_rel_trans[OF unsub_rel_trans[OF r1 h2(4,2)] h'(4,2)] have "unsub_rel h h'" .
  moreover have "subs (h' ! p) = (if p \<in> set (t # ts) then removeAll x (subs (h ! p)) else subs (h ! p))"
    if p: "p < length h" for p
    using h'(5) h2(5) f[OF p] p l2 by simp
  ultimately show ?case using h'(2,3) by blast
qed

lemma well_formed_unsubscribeAll:
  "well_formed s \<Longrightarrow> unsubscribeAll x s = Some (Inr s') \<Longrightarrow> well_formed s'"
proof (cases "x = 0")
  case True
  assume "well_formed s" "unsubscribeAll x s = Some (Inr s')"
  with True show ?thesis by (simp add: unsubscribeAll_def)
next
  case False
  assume wf: "well_formed s" and u: "unsubscribeAll x s = Some (Inr s')"
  note d = well_formedD[OF wf]
  from d(3) have "\<forall>t\<in>set (subscriptions s x). t \<noteq> root \<and> t < length (heap s)" by blast
  from unsubscribe_each_ok[OF d(1,2) this, of x] obtain h' where
    h': "unsubscribe_each x (subscriptions s x) (heap s) = Some (Inr h')" "tree_ok h'" "trimmed h'"
      "unsub_rel (heap s) h'"
    by blast
  with u False have s': "s' = s\<lparr>heap := h'\<rparr>" by (simp add: unsubscribeAll_def)
  from h'(4) have l: "length h' = length (heap s)"
    and m: "\<And>p. p < length (heap s) \<Longrightarrow> messages (h' ! p) = messages (heap s ! p)
        \<and> triggered (h' ! p) = triggered (heap s ! p)"
    by (simp_all add: unsub_rel_def)
  have 3: "t \<noteq> root \<and> t < length h'" if "t \<in> set (subscriptions s y)" for y t
    using d(3)[OF that] l by simp
  have 4: "fst km < messageId s" if "t < length (heap s)" "km \<in> set (messages (h' ! t))" for t km
    using d(4)[OF that(1), of km] m[OF that(1)] that(2) by simp
  have 5: "t \<in> set (triggeredTopics s)" if "t < length (heap s)" "triggered (h' ! t)" for t
    using d(5)[OF that(1)] m[OF that(1)] that(2) by simp
  have 6: "t < length h'" if "t \<in> set (triggeredTopics s)" for t
    using d(6)[OF that] l by simp
  have "well_formed (s\<lparr>heap := h'\<rparr>)"
    using h'(2,3) 3 4 5 6 l by (intro well_formedI) simp_all
  then show ?thesis unfolding s' .
qed

subsection \<open>Every tree that calls of the interface build has the invariant\<close>

lemma well_formed_run:
  "run cs (l, s) = Some (Inr (l', s')) \<Longrightarrow> well_formed s \<Longrightarrow> well_formed s'"
proof (induction cs arbitrary: l s)
  case Nil
  then show ?case by simp
next
  case (Cons c cs)
  from Cons.prems(1) obtain l1 s1 where e: "exec c (l, s) = Some (Inr (l1, s1))"
    and r: "run cs (l1, s1) = Some (Inr (l', s'))"
    by (auto split: option.splits sum.splits)
  have "well_formed s1"
  proof (cases c)
    case (Subscribe topic x)
    with e Cons.prems(2) show ?thesis by (auto simp: well_formed_subscribe)
  next
    case (Publish topic m)
    with e Cons.prems(2) show ?thesis by (auto split: sum.splits intro: well_formed_publish)
  next
    case (UnsubscribeAll x)
    with e Cons.prems(2) show ?thesis
      by (auto split: option.splits sum.splits intro: well_formed_unsubscribeAll)
  next
    case Drain
    with e Cons.prems(2) show ?thesis
      by (auto split: option.splits sum.splits intro: well_formed_drain)
  qed
  from Cons.IH[OF r this] show ?case .
qed

lemma well_formed_reached: "run cs ([], init) = Some (Inr (l, s)) \<Longrightarrow> well_formed s"
  using well_formed_run[OF _ well_formed_init] by blast

section \<open>What a publish stores\<close>

text \<open>
  The pattern \<open>a/#\<close> has a topic exactly when the root has a child \<open>a\<close> that has a child
  \<open>#\<close>. A publish on a topic that goes on after \<open>a/\<close> reaches the topic \<open>a\<close> with a
  segment left to read and stores the message on its \<open>#\<close> child; a publish on \<open>a\<close>
  writes to children of the root only.
\<close>

lemma subscribe_walk_length: "length h \<le> length (snd (subscribe_walk i r h))"
proof (induction i r h rule: subscribe_walk.induct)
  case (1 iterator h)
  then show ?case by simp
next
  case (2 iterator r h)
  show ?case
  proof (cases "map_of (children (h ! iterator)) (segment r)")
    case None
    with "2.IH"(1)[OF None] show ?thesis by simp
  next
    case (Some c)
    with "2.IH"(2)[OF Some] show ?thesis by simp
  qed
qed

lemma subscribe_walk_alloc:
  "map_of (children (h ! i)) (segment r) = None \<Longrightarrow> length h < length (snd (subscribe_walk i (Some r) h))"
  using subscribe_walk_length[of "h[i := add_child (segment r) (length h) (h ! i)]
               @ [new_Topic\<lparr>name := segment r, parent := Some i\<rparr>]" "length h" "after_slash r"]
  by simp

lemma topic_of_a_hash:
  assumes "topic_of ''a/#'' h = Some H"
  shows "\<exists>A. map_of (children (h ! root)) ''a'' = Some A \<and> map_of (children (h ! A)) ''#'' = Some H"
proof -
  have sg: "segment ''a/#'' = ''a''" "after_slash ''a/#'' = Some ''#''" "segment ''#'' = ''#''"
    "after_slash ''#'' = None"
    by (simp_all add: segment_def after_slash_def)
  from assms have l: "length (snd (subscribe_walk root (Some ''a/#'') h)) = length h"
    and t: "fst (subscribe_walk root (Some ''a/#'') h) = H"
    by (auto simp: topic_of_def split: prod.splits if_splits)
  show ?thesis
  proof (cases "map_of (children (h ! root)) ''a''")
    case None
    with subscribe_walk_alloc[of h root "''a/#''"] l sg show ?thesis by simp
  next
    case (Some A)
    then have e: "subscribe_walk root (Some ''a/#'') h = subscribe_walk A (Some ''#'') h"
      by (simp add: sg)
    show ?thesis
    proof (cases "map_of (children (h ! A)) ''#''")
      case None
      with subscribe_walk_alloc[of h A "''#''"] l e sg show ?thesis by simp
    next
      case h: (Some H')
      with e t have "H' = H" by (simp add: sg)
      with Some h show ?thesis by simp
    qed
  qed
qed

lemma publish_walk_twc:
  assumes "publish_walk i (Some r) M s = Inr s'" and "terminatingWildcardChild (heap s ! i) = Some H"
  shows "\<exists>sc. store_trigger H M s = Inr sc \<and> publish_rel M sc s'"
proof -
  from assms obtain s1 where s1: "store_trigger H M s = Inr s1"
    by (auto split: sum.splits)
  with assms obtain s2 where
    s2: "(case wildcardChild (heap s1 ! i) of
                   None \<Rightarrow> Inr s1
                 | Some w \<Rightarrow> publish_walk w (after_slash r) M s1) = Inr s2"
    by (auto split: sum.splits)
  with s1 assms have
    s3: "(case map_of (children (heap s2 ! i)) (segment r) of
                  None \<Rightarrow> Inr s2
                | Some c \<Rightarrow> publish_walk c (after_slash r) M s2) = Inr s'"
    by simp
  from s2 have r2: "publish_rel M s1 s2"
    by (auto simp: publish_rel_refl publish_walk_rel split: option.splits)
  from s3 have r3: "publish_rel M s2 s'"
    by (auto simp: publish_rel_refl publish_walk_rel split: option.splits)
  from s1 publish_rel_trans[OF r2 r3] show ?thesis by blast
qed

lemma publish_walk_child:
  assumes "publish_walk i (Some r) M s = Inr s'" and "map_of (children (heap s ! i)) (segment r) = Some c"
    and "i < length (heap s)"
  shows "\<exists>sb. publish_rel M s sb \<and> publish_walk c (after_slash r) M sb = Inr s'"
proof -
  from assms(1) obtain s1 where
    s1: "(case terminatingWildcardChild (heap s ! i) of
              None \<Rightarrow> Inr s | Some t \<Rightarrow> store_trigger t M s) = Inr s1"
    by (auto split: sum.splits)
  with assms(1) obtain s2 where
    s2: "(case wildcardChild (heap s1 ! i) of
                   None \<Rightarrow> Inr s1
                 | Some w \<Rightarrow> publish_walk w (after_slash r) M s1) = Inr s2"
    by (auto split: sum.splits)
  with s1 assms(1) have
    s3: "(case map_of (children (heap s2 ! i)) (segment r) of
                  None \<Rightarrow> Inr s2
                | Some c \<Rightarrow> publish_walk c (after_slash r) M s2) = Inr s'"
    by simp
  from s1 have r1: "publish_rel M s s1"
    by (auto simp: publish_rel_refl store_trigger_rel split: option.splits)
  from s2 have r2: "publish_rel M s1 s2"
    by (auto simp: publish_rel_refl publish_walk_rel split: option.splits)
  note r = publish_rel_trans[OF r1 r2]
  then have "map skeleton (heap s2) = map skeleton (heap s)" by (simp add: publish_rel_def)
  from skeleton_eq_fields(2)[OF this assms(3)] assms(2)
  have "map_of (children (heap s2 ! i)) (segment r) = Some c" by simp
  with s3 r show ?thesis by auto
qed

lemma publish_under_hash:
  assumes "well_formed s" and "map_of (children (heap s ! root)) ''a'' = Some A"
    and "map_of (children (heap s ! A)) ''#'' = Some H"
    and "publish (''a/'' @ r) M s = Inr s'"
  shows "map_of (messages (heap s' ! H)) (messageId s) = Some M \<and> triggered (heap s' ! H)
     \<and> H \<in> set (triggeredTopics s')
     \<and> (\<forall>t\<in>set (triggeredTopics s').
          map_of (messages (heap s' ! t)) (messageId s) = None
          \<or> map_of (messages (heap s' ! t)) (messageId s) = Some M)
     \<and> subs (heap s' ! H) = subs (heap s ! H)"
proof -
  note d = well_formedD[OF assms(1)]
  from d(1) have r0: "root < length (heap s)" by (simp add: tree_ok_iff root_def)
  from tree_ok_lookup(1)[OF d(1) r0 assms(2)] have A: "A < length (heap s)" .
  from tree_ok_lookup(1)[OF d(1) A assms(3)] have H: "H < length (heap s)" .
  have sg: "segment (''a/'' @ r) = ''a''" "after_slash (''a/'' @ r) = Some r"
    by (simp_all add: segment_def after_slash_def)
  from assms(4) obtain s1 where w: "publish_walk root (Some (''a/'' @ r)) M s = Inr s1"
    and s': "s' = s1\<lparr>messageId := messageId s1 + 1\<rparr>"
    by (auto simp: publish_def split: sum.splits if_splits)
  note rel = publish_walk_rel[OF w]
  from publish_walk_child[OF w _ r0] assms(2) sg obtain sb where
    sb: "publish_rel M s sb" "publish_walk A (Some r) M sb = Inr s1"
    by auto
  from sb(1) have skb: "map skeleton (heap sb) = map skeleton (heap s)" and idb: "messageId sb = messageId s"
    by (simp_all add: publish_rel_def)
  note lb = skeleton_eq_length[OF skb]
  from skeleton_eq_fields(6)[OF skb A] tree_ok_wild(4)[OF d(1) A] assms(3)
  have "terminatingWildcardChild (heap sb ! A) = Some H" by simp
  from publish_walk_twc[OF sb(2) this] obtain sc where
    sc: "store_trigger H M sb = Inr sc" "publish_rel M sc s1"
    by blast
  have "triggered (heap sb ! H) \<longrightarrow> H \<in> set (triggeredTopics sb)"
    using sb(1) H d(5)[OF H] unfolding publish_rel_def by blast
  from store_trigger_stores[OF sc(1) _ this] H lb idb
  have st: "messages (heap sc ! H) = map_assign (messageId s) M (messages (heap sb ! H))"
    "triggered (heap sc ! H)" "H \<in> set (triggeredTopics sc)"
    by simp_all
  from store_trigger_rel[OF sc(1)] have "map skeleton (heap sc) = map skeleton (heap sb)"
    and idc: "messageId sc = messageId sb"
    by (simp_all add: publish_rel_def)
  from skeleton_eq_length[OF this(1)] lb H have Hc: "H < length (heap sc)" by simp
  from sc(2) Hc have "messages (heap s1 ! H) = messages (heap sc ! H)
      \<or> messages (heap s1 ! H) = map_assign (messageId sc) M (messages (heap sc ! H))"
    and "triggered (heap sc ! H) \<longrightarrow> triggered (heap s1 ! H)"
    and "set (triggeredTopics sc) \<subseteq> set (triggeredTopics s1)"
    unfolding publish_rel_def by blast+
  with st idc idb have 1: "map_of (messages (heap s1 ! H)) (messageId s) = Some M"
    "triggered (heap s1 ! H)" "H \<in> set (triggeredTopics s1)"
    by (auto simp: map_of_map_assign)
  have 2: "map_of (messages (heap s1 ! t)) (messageId s) = None
          \<or> map_of (messages (heap s1 ! t)) (messageId s) = Some M" if "t \<in> set (triggeredTopics s1)" for t
  proof -
    from publish_walk_valid[OF w d(1) r0] that d(6) have t: "t < length (heap s)" by blast
    have "map_of (messages (heap s ! t)) (messageId s) = None"
    proof (cases "map_of (messages (heap s ! t)) (messageId s)")
      case (Some v)
      from d(4)[OF t map_of_SomeD[OF Some]] show ?thesis by simp
    qed simp
    moreover from rel t have "messages (heap s1 ! t) = messages (heap s ! t)
        \<or> messages (heap s1 ! t) = map_assign (messageId s) M (messages (heap s ! t))"
      unfolding publish_rel_def by blast
    ultimately show ?thesis by (auto simp: map_of_map_assign)
  qed
  from rel have "map skeleton (heap s1) = map skeleton (heap s)" by (simp add: publish_rel_def)
  from skeleton_eq_fields(7)[OF this H] have 3: "subs (heap s1 ! H) = subs (heap s ! H)" .
  from 1 2 3 show ?thesis unfolding s' by simp
qed

lemma publish_beside_hash:
  assumes "well_formed s" and "map_of (children (heap s ! root)) ''a'' = Some A"
    and "map_of (children (heap s ! A)) ''#'' = Some H"
    and "publish ''a'' M s = Inr s'"
  shows "heap s' ! H = heap s ! H"
proof -
  note d = well_formedD[OF assms(1)]
  from d(1) have r0: "root < length (heap s)" by (simp add: tree_ok_iff root_def)
  from tree_ok_lookup[OF d(1) r0 assms(2)] have A: "A < length (heap s)" "A \<noteq> root" by simp_all
  from tree_ok_lookup(2)[OF d(1) A(1) assms(3)] A(2)
  have H: "parent (heap s ! H) \<noteq> Some root" by simp
  have sg: "segment ''a'' = ''a''" "after_slash ''a'' = None"
    by (simp_all add: segment_def after_slash_def)
  from assms(4) obtain s3 where w: "publish_walk root (Some ''a'') M s = Inr s3"
    and s': "s' = s3\<lparr>messageId := messageId s3 + 1\<rparr>"
    by (auto simp: publish_def split: sum.splits if_splits)
  note w' = w[unfolded publish_walk.simps(2) sg publish_walk.simps(1)]
  from w' obtain s1 where
    s1: "(case terminatingWildcardChild (heap s ! root) of
              None \<Rightarrow> Inr s | Some t \<Rightarrow> store_trigger t M s) = Inr s1"
    by (auto split: sum.splits)
  with w' obtain s2 where
    s2: "(case wildcardChild (heap s1 ! root) of
                   None \<Rightarrow> Inr s1
                 | Some w \<Rightarrow> store_trigger w M s1) = Inr s2"
    by (auto split: sum.splits)
  with s1 w' have
    s3: "(case map_of (children (heap s2 ! root)) ''a'' of
                  None \<Rightarrow> Inr s2
                | Some c \<Rightarrow> store_trigger c M s2) = Inr s3"
    by simp
  from s1 have r1: "publish_rel M s s1"
    by (auto simp: publish_rel_refl store_trigger_rel split: option.splits)
  from s2 have r2: "publish_rel M s1 s2"
    by (auto simp: publish_rel_refl store_trigger_rel split: option.splits)
  from r1 have sk1: "map skeleton (heap s1) = map skeleton (heap s)" by (simp add: publish_rel_def)
  from publish_rel_trans[OF r1 r2] have sk2: "map skeleton (heap s2) = map skeleton (heap s)"
    by (simp add: publish_rel_def)
  have 1: "heap s1 ! H = heap s ! H"
  proof (cases "terminatingWildcardChild (heap s ! root)")
    case None
    with s1 show ?thesis by simp
  next
    case (Some t)
    from tree_ok_wild(2)[OF d(1) r0 Some] H have "H \<noteq> t" by auto
    with Some s1 store_trigger_frame[of t M s s1 H] show ?thesis by simp
  qed
  have 2: "heap s2 ! H = heap s1 ! H"
  proof (cases "wildcardChild (heap s1 ! root)")
    case None
    with s2 show ?thesis by simp
  next
    case (Some t)
    with skeleton_eq_fields(5)[OF sk1 r0] have "wildcardChild (heap s ! root) = Some t" by simp
    from tree_ok_wild(1)[OF d(1) r0 this] H have "H \<noteq> t" by auto
    with Some s2 store_trigger_frame[of t M s1 s2 H] show ?thesis by simp
  qed
  have 3: "heap s3 ! H = heap s2 ! H"
  proof (cases "map_of (children (heap s2 ! root)) ''a''")
    case None
    with s3 show ?thesis by simp
  next
    case (Some t)
    with skeleton_eq_fields(2)[OF sk2 r0] have "map_of (children (heap s ! root)) ''a'' = Some t" by simp
    from tree_ok_lookup(2)[OF d(1) r0 this] H have "H \<noteq> t" by auto
    with Some s3 store_trigger_frame[of t M s2 s3 H] show ?thesis by simp
  qed
  from 1 2 3 show ?thesis unfolding s' by simp
qed

lemma map_of_concat_first:
  assumes "m \<in> set ms" and "map_of m k = Some v"
    and "\<forall>m'\<in>set ms. map_of m' k = None \<or> map_of m' k = Some v"
  shows "map_of (concat ms) k = Some v"
  using assms
proof (induction ms)
  case (Cons a ms)
  show ?case
  proof (cases "map_of a k")
    case None
    with Cons.prems have "m \<in> set ms" by auto
    from Cons.IH[OF this Cons.prems(2)] Cons.prems(3) None show ?thesis
      by (simp add: map_add_def)
  next
    case (Some w)
    with Cons.prems(3) have "w = v" by auto
    with Some show ?thesis by (simp add: map_add_def)
  qed
qed simp

lemma merged_payload_contains:
  assumes "m \<in> set ms" and "map_of m k = Some v"
    and "\<forall>m'\<in>set ms. map_of m' k = None \<or> map_of m' k = Some v"
  shows "\<exists>u w. merged_payload ms = u @ v @ w"
proof -
  from assms(2) have "k \<in> fst ` set m" by (metis map_of_eq_None_iff option.distinct(1))
  with assms(1) have "k \<in> (\<Union>m\<in>set ms. fst ` set m)" by blast
  then have "k \<in> set (merged_ids ms)" by (simp add: merged_ids_def)
  then obtain xs ys where ids: "merged_ids ms = xs @ k # ys" by (meson split_list)
  from map_of_concat_first[OF assms] have "the (map_of (concat ms) k) = v" by simp
  with ids have "merged_payload ms = concat (map (\<lambda>k. the (map_of (concat ms) k)) xs) @ v
      @ concat (map (\<lambda>k. the (map_of (concat ms) k)) ys)"
    by (simp add: merged_payload_def)
  then show ?thesis by blast
qed

lemma filter_eq_distinct: "distinct xs \<Longrightarrow> x \<in> set xs \<Longrightarrow> length (filter (\<lambda>y. y = x) xs) = 1"
proof (induction xs)
  case (Cons a xs)
  show ?case
  proof (cases "a = x")
    case True
    with Cons.prems have "x \<notin> set xs" by simp
    then have "filter (\<lambda>y. y = x) xs = []" by (auto simp: filter_empty_conv)
    with True show ?thesis by simp
  next
    case False
    with Cons show ?thesis by simp
  qed
qed simp

lemma drain_delivers_message:
  assumes "batch_ok s" and "H \<in> set (triggeredTopics s)" and "S \<in> set (subs (heap s ! H))"
    and "map_of (messages (heap s ! H)) k = Some M"
    and "\<forall>t\<in>set (triggeredTopics s). map_of (messages (heap s ! t)) k = None
          \<or> map_of (messages (heap s ! t)) k = Some M"
  shows "\<exists>log s'. drain s = Some (Inr (log, s')) \<and> length (filter (\<lambda>d. who d = S) log) = 1
     \<and> (\<forall>d\<in>set log. who d = S \<longrightarrow> (\<exists>u v. payload d = u @ M @ v))"
proof -
  from drain_batch[OF assms(1)] obtain log s' where dr: "drain s = Some (Inr (log, s'))"
    and w: "map who log = sorted_list_of_set (touched s)"
    and p: "\<forall>d\<in>set log. payload d = merged_payload (map (\<lambda>t. messages (heap s ! t)) (nodes_of s (who d)))"
    by blast
  have fin: "finite (touched s)" by (simp add: touched_def)
  from assms(2,3) have S: "S \<in> touched s" by (auto simp: touched_def)
  have "distinct (map who log)" "S \<in> set (map who log)"
    using w fin S by simp_all
  then have "length (filter (\<lambda>y. y = S) (map who log)) = 1"
    by (rule filter_eq_distinct)
  then have 1: "length (filter (\<lambda>d. who d = S) log) = 1"
    by (simp add: filter_map o_def)
  have 2: "\<exists>u v. payload d = u @ M @ v" if d: "d \<in> set log" "who d = S" for d
  proof -
    let ?ms = "map (\<lambda>t. messages (heap s ! t)) (nodes_of s S)"
    from assms(2,3) have "messages (heap s ! H) \<in> set ?ms" by (simp add: nodes_of_def)
    moreover have "\<forall>m'\<in>set ?ms. map_of m' k = None \<or> map_of m' k = Some M"
      using assms(5) by (auto simp: nodes_of_def)
    ultimately have "\<exists>u w. merged_payload ?ms = u @ M @ w"
      using assms(4) by (intro merged_payload_contains)
    with p d show ?thesis by simp
  qed
  from dr 1 2 show ?thesis by blast
qed

section \<open>The claims\<close>

subsection \<open>C1: what drain delivers\<close>

text \<open>
  C1 says that every drain of a non-empty batch calls \<open>cb\<close> exactly once for every
  subscriber of a triggered topic. \<open>drain\<close> starts its merge at \<open>min\<close>, which is meant to
  be the lowest subscriber of the batch ("Keep track of lowest subscriber"), but \<open>min\<close> is
  only updated by \<open>publish\<close>: after \<open>subscribe("t", 32)\<close>, \<open>publish("t", "M")\<close> and
  \<open>subscribe("t", 16)\<close> it is still 32, no cursor points to it in the first pass, and
  \<open>drain\<close> calls \<open>cb\<close> for 32 twice, the first time with an empty payload.
\<close>

theorem C1_stale_min:
  "the_log (run [Subscribe ''t'' 32, Publish ''t'' ''M'', Subscribe ''t'' 16, Drain] ([], init)) =
     Some [\<lparr>who = 32, payload = [], built = True, matched = []\<rparr>,
           \<lparr>who = 16, payload = ''M'', built = True, matched = [1]\<rparr>,
           \<lparr>who = 32, payload = ''M'', built = False, matched = [1]\<rparr>]"
  by (simp add: tree_defs drain_defs observe_defs UINTPTR_MAX_def)

text \<open>
  When \<open>min\<close> is the lowest subscriber of the batch, every triggered topic has a subscriber and
  at most 32 topics are triggered (\<open>batch_ok\<close>), \<open>drain\<close> does what C1 says: it returns, it
  calls \<open>cb\<close> exactly once for every subscriber of a triggered topic, in ascending order of
  the subscribers, and the payload of the call is the concatenation, in ascending order of
  the sequence ids, of the messages of the triggered topics that the subscriber belongs to,
  where an id that several of these topics hold contributes its message once.
\<close>

lemma drain_delivers_once:
  assumes "batch_ok s"
  shows "\<exists>log s'. drain s = Some (Inr (log, s'))
    \<and> map who log = sorted_list_of_set (touched s)
    \<and> (\<forall>d\<in>set log.
          payload d = merged_payload (map (\<lambda>t. messages (heap s ! t)) (nodes_of s (who d))))"
  using drain_batch[OF assms] by blast

lemma drain_delivers_once_example:
  "batch_ok example_merge
   \<and> (\<exists>log s'. drain example_merge = Some (Inr (log, s'))
        \<and> map who log = [16, 32] \<and> map payload log = [''M1M2'', ''M1M2''])"
proof -
  have ok: "batch_ok example_merge"
    by (simp add: example_merge_def tree_defs batch_ok_def lowest_def lower_def UINTPTR_MAX_def)
  from drain_delivers_once[OF ok] obtain log s' where "drain example_merge = Some (Inr (log, s'))"
    by blast
  moreover have "map who (fst (projr (the (drain example_merge)))) = [16, 32]
      \<and> map payload (fst (projr (the (drain example_merge)))) = [''M1M2'', ''M1M2'']"
    by (simp add: example_merge_def tree_defs drain_defs UINTPTR_MAX_def)
  ultimately show ?thesis using ok by auto
qed

subsection \<open>C5: the cache of payloads\<close>

text \<open>
  C5 says that the payload of a set of triggered topics is constructed at most once in a
  drain, also when it is the empty string. The code takes an empty string in
  \<open>intersectionCache\<close> for a missing entry: with two subscribers of one topic and an
  empty message, both calls of \<open>cb\<close> construct the payload, for one set of topics.
\<close>

theorem C5_empty_payload_counterexample:
  "the_log (run [Subscribe ''t'' 16, Subscribe ''t'' 32, Publish ''t'' [], Drain] ([], init)) =
     Some [\<lparr>who = 16, payload = [], built = True, matched = [1]\<rparr>,
           \<lparr>who = 32, payload = [], built = True, matched = [1]\<rparr>]
   \<and> constructions [\<lparr>who = 16, payload = [], built = True, matched = [1]\<rparr>,
           \<lparr>who = 32, payload = [], built = True, matched = [1]\<rparr>] = 2
   \<and> distinct_subsets [\<lparr>who = 16, payload = [], built = True, matched = [1]\<rparr>,
           \<lparr>who = 32, payload = [], built = True, matched = [1]\<rparr>] = 1"
  by (simp add: tree_defs drain_defs observe_defs constructions_def distinct_subsets_def
      UINTPTR_MAX_def)

text \<open>
  C5 as amended. Take a drain of a batch as \<open>publish\<close> leaves it (\<open>batch_ok\<close>): at most 32
  triggered topics, each with a subscriber, and \<open>min\<close> the lowest first subscriber of the
  triggered topics. The drain returns. A call of \<open>cb\<close> for a set of triggered topics for
  which an earlier call of the same drain passed a non-empty payload reuses the cached
  payload; an empty payload is constructed again at every call. So the number of
  constructions is at most the number of different sets of topics plus the number of calls
  with an empty payload, and the number of calls is the number of subscribers of the
  triggered topics.
\<close>

theorem C5_cache_reuse:
  assumes "batch_ok s"
  shows "\<exists>log s'. drain s = Some (Inr (log, s'))
    \<and> (\<forall>j<length log. \<forall>i<j.
          matched (log ! i) = matched (log ! j) \<and> payload (log ! i) \<noteq> [] \<longrightarrow> \<not> built (log ! j))
    \<and> (\<forall>d\<in>set log. payload d = [] \<longrightarrow> built d)
    \<and> constructions log \<le> distinct_subsets log + length (filter (\<lambda>d. payload d = []) log)
    \<and> length log = card (touched s)"
proof -
  from drain_batch[OF assms] obtain log s' where d: "drain s = Some (Inr (log, s'))"
    and w: "map who log = sorted_list_of_set (touched s)" and r: "reuse log"
    by blast
  from w have "length (map who log) = length (sorted_list_of_set (touched s))" by simp
  then have "length log = card (touched s)" by (simp add: touched_def)
  with d r reuse_bounds_constructions[OF r] drain_empty_payload[OF d] show ?thesis
    unfolding reuse_def by blast
qed

theorem C5_cache_reuse_witness:
  "batch_ok example_reuse
   \<and> (\<exists>log s'. drain example_reuse = Some (Inr (log, s'))
        \<and> log = [\<lparr>who = 16, payload = ''M'', built = True, matched = [1]\<rparr>,
                  \<lparr>who = 32, payload = ''M'', built = False, matched = [1]\<rparr>,
                  \<lparr>who = 48, payload = [], built = True, matched = [2]\<rparr>,
                  \<lparr>who = 64, payload = [], built = True, matched = [2]\<rparr>]
        \<and> constructions log = 3 \<and> distinct_subsets log = 2
        \<and> length (filter (\<lambda>d. payload d = []) log) = 2)"
proof -
  have ok: "batch_ok example_reuse"
    by (simp add: example_reuse_def tree_defs batch_ok_def lowest_def lower_def UINTPTR_MAX_def)
  from C5_cache_reuse[OF ok] obtain log s' where "drain example_reuse = Some (Inr (log, s'))"
    by blast
  moreover have "fst (projr (the (drain example_reuse))) =
      [\<lparr>who = 16, payload = ''M'', built = True, matched = [1]\<rparr>,
       \<lparr>who = 32, payload = ''M'', built = False, matched = [1]\<rparr>,
       \<lparr>who = 48, payload = [], built = True, matched = [2]\<rparr>,
       \<lparr>who = 64, payload = [], built = True, matched = [2]\<rparr>]"
    by (simp add: example_reuse_def tree_defs drain_defs UINTPTR_MAX_def)
  ultimately show ?thesis using ok
    by (auto simp: constructions_def distinct_subsets_def)
qed

subsection \<open>C2: the outer loop of drain with an empty subscriber set\<close>

text \<open>
  C2 says that drain terminates in every state that calls of subscribe, publish and
  unsubscribeAll can reach, also when a triggered topic has no subscriber at drain time.
  The code does not: after \<open>subscribe("a", 16)\<close>, \<open>publish("a", "M")\<close> and
  \<open>unsubscribeAll(16)\<close> the topic \<open>a\<close> is still in \<open>triggeredTopics\<close> and its subscriber
  set is empty, and \<open>drain\<close> does not return.
\<close>

theorem C2_drain_does_not_return:
  "run [Subscribe ''a'' 16, Publish ''a'' ''M'', UnsubscribeAll 16, Drain] ([], init) = None"
  by (simp add: tree_defs trim_defs drain_def drain_loop_diverges)

subsection \<open>C3: the terminating wildcard\<close>

text \<open>
  C3 says that a subscriber of \<open>a/#\<close> is delivered a message published on \<open>a\<close>. In the
  code the \<open>#\<close> child of a node is only looked at while a segment is left to read. With
  subscriber 16 on \<open>a/#\<close> and subscriber 32 on \<open>a\<close>, a publish on \<open>a\<close> leaves the \<open>#\<close>
  topic (at index 2) without message, and the drain calls \<open>cb\<close> for 32 only.
\<close>

theorem C3_zero_segments_counterexample:
  "topic_after 2 (run [Subscribe ''a/#'' 16, Subscribe ''a'' 32, Publish ''a'' ''M''] ([], init)) =
     Some \<lparr>name = ''#'', parent = Some 1, triggered = False, children = [],
       wildcardChild = None, terminatingWildcardChild = None, messages = [], subs = [16]\<rparr>
   \<and> delivered (run [Subscribe ''a/#'' 16, Subscribe ''a'' 32, Publish ''a'' ''M'', Drain] ([], init)) =
     Some [(32, ''M'')]"
  by (simp add: tree_defs drain_defs observe_defs)

text \<open>
  C3 as amended: the terminating wildcard matches one or more remaining segments, not zero.
  Take a tree that calls of the interface have built from a new tree, and a subscriber \<open>S\<close>
  subscribed to the pattern \<open>a/#\<close>, whose topic is \<open>H\<close>. A publish of \<open>M\<close> on \<open>a/b\<close>, on
  \<open>a/b/c\<close> or on any other topic that goes on after \<open>a/\<close>, when the publish is defined,
  stores \<open>M\<close> on \<open>H\<close> under the current sequence id, triggers \<open>H\<close> and has it in
  \<open>triggeredTopics\<close>; so the next drain, when the batch is as \<open>publish\<close> leaves it
  (\<open>batch_ok\<close>), returns and calls \<open>cb\<close> exactly once for \<open>S\<close>, with a payload that
  contains \<open>M\<close>. A publish on \<open>a\<close>, when it is defined, stores nothing on \<open>H\<close>: it leaves
  the topic as it was.
\<close>

theorem C3_terminating_wildcard:
  assumes "run cs ([], init) = Some (Inr (l, s))"
    and "topic_of ''a/#'' (heap s) = Some H" and "S \<in> set (subs (heap s ! H))"
  shows "(\<forall>r s'. publish (''a/'' @ r) M s = Inr s' \<longrightarrow>
            map_of (messages (heap s' ! H)) (messageId s) = Some M
          \<and> triggered (heap s' ! H) \<and> H \<in> set (triggeredTopics s')
          \<and> (batch_ok s' \<longrightarrow>
               (\<exists>log s''. drain s' = Some (Inr (log, s''))
                  \<and> length (filter (\<lambda>d. who d = S) log) = 1
                  \<and> (\<forall>d\<in>set log. who d = S \<longrightarrow> (\<exists>u v. payload d = u @ M @ v)))))
     \<and> (\<forall>s'. publish ''a'' M s = Inr s' \<longrightarrow> heap s' ! H = heap s ! H)"
proof -
  from well_formed_reached[OF assms(1)] have wf: "well_formed s" .
  from topic_of_a_hash[OF assms(2)] obtain A where
    A: "map_of (children (heap s ! root)) ''a'' = Some A" "map_of (children (heap s ! A)) ''#'' = Some H"
    by blast
  have "map_of (messages (heap s' ! H)) (messageId s) = Some M
          \<and> triggered (heap s' ! H) \<and> H \<in> set (triggeredTopics s')
          \<and> (batch_ok s' \<longrightarrow>
               (\<exists>log s''. drain s' = Some (Inr (log, s''))
                  \<and> length (filter (\<lambda>d. who d = S) log) = 1
                  \<and> (\<forall>d\<in>set log. who d = S \<longrightarrow> (\<exists>u v. payload d = u @ M @ v))))"
    if p: "publish (''a/'' @ r) M s = Inr s'" for r s'
  proof -
    from publish_under_hash[OF wf A p]
    have st: "map_of (messages (heap s' ! H)) (messageId s) = Some M" "triggered (heap s' ! H)"
      "H \<in> set (triggeredTopics s')"
      "\<forall>t\<in>set (triggeredTopics s').
          map_of (messages (heap s' ! t)) (messageId s) = None
          \<or> map_of (messages (heap s' ! t)) (messageId s) = Some M"
      "subs (heap s' ! H) = subs (heap s ! H)"
      by blast+
    from st(5) assms(3) have "S \<in> set (subs (heap s' ! H))" by simp
    from drain_delivers_message[OF _ st(3) this st(1,4)] st(1,2,3) show ?thesis by blast
  qed
  moreover have "heap s' ! H = heap s ! H" if "publish ''a'' M s = Inr s'" for s'
    using publish_beside_hash[OF wf A that] .
  ultimately show ?thesis by blast
qed

theorem C3_terminating_wildcard_witness:
  "run [Subscribe ''a/#'' 16, Subscribe ''a'' 32] ([], init) = Some (Inr ([], example_hash))
   \<and> topic_of ''a/#'' (heap example_hash) = Some 2
   \<and> 16 \<in> set (subs (heap example_hash ! 2))
   \<and> (\<exists>s'. publish ''a/b'' ''M'' example_hash = Inr s' \<and> batch_ok s'
        \<and> messages (heap s' ! 2) = [(0, ''M'')] \<and> triggered (heap s' ! 2)
        \<and> 2 \<in> set (triggeredTopics s') \<and> delivered (drain s') = Some [(16, ''M'')])
   \<and> (\<exists>s'. publish ''a/b/c'' ''M'' example_hash = Inr s' \<and> batch_ok s'
        \<and> messages (heap s' ! 2) = [(0, ''M'')] \<and> triggered (heap s' ! 2)
        \<and> 2 \<in> set (triggeredTopics s') \<and> delivered (drain s') = Some [(16, ''M'')])
   \<and> (\<exists>s'. publish ''a'' ''M'' example_hash = Inr s' \<and> heap s' ! 2 = heap example_hash ! 2
        \<and> messages (heap s' ! 2) = [] \<and> delivered (drain s') = Some [(32, ''M'')])"
proof -
  have r: "run [Subscribe ''a/#'' 16, Subscribe ''a'' 32] ([], init) = Some (Inr ([], example_hash))"
    by (simp add: example_hash_def tree_defs)
  have t: "topic_of ''a/#'' (heap example_hash) = Some 2"
    by (simp add: example_hash_def tree_defs topic_of_def)
  have m: "16 \<in> set (subs (heap example_hash ! 2))"
    by (simp add: example_hash_def tree_defs)
  note T = C3_terminating_wildcard[OF r t m, of "''M''"]
  have "\<exists>s'. publish ''a/b'' ''M'' example_hash = Inr s' \<and> batch_ok s'
        \<and> messages (heap s' ! 2) = [(0, ''M'')] \<and> delivered (drain s') = Some [(16, ''M'')]"
    by (simp add: example_hash_def tree_defs batch_ok_def lowest_def lower_def UINTPTR_MAX_def
        drain_defs observe_defs)
  then obtain s1 where s1: "publish ''a/b'' ''M'' example_hash = Inr s1" "batch_ok s1"
    "messages (heap s1 ! 2) = [(0, ''M'')]" "delivered (drain s1) = Some [(16, ''M'')]"
    by blast
  from T have "publish (''a/'' @ ''b'') ''M'' example_hash = Inr s1 \<longrightarrow>
      triggered (heap s1 ! 2) \<and> 2 \<in> set (triggeredTopics s1)"
    by blast
  with s1(1) have 1: "triggered (heap s1 ! 2) \<and> 2 \<in> set (triggeredTopics s1)" by simp
  have "\<exists>s'. publish ''a/b/c'' ''M'' example_hash = Inr s' \<and> batch_ok s'
        \<and> messages (heap s' ! 2) = [(0, ''M'')] \<and> delivered (drain s') = Some [(16, ''M'')]"
    by (simp add: example_hash_def tree_defs batch_ok_def lowest_def lower_def UINTPTR_MAX_def
        drain_defs observe_defs)
  then obtain s2 where s2: "publish ''a/b/c'' ''M'' example_hash = Inr s2" "batch_ok s2"
    "messages (heap s2 ! 2) = [(0, ''M'')]" "delivered (drain s2) = Some [(16, ''M'')]"
    by blast
  from T have "publish (''a/'' @ ''b/c'') ''M'' example_hash = Inr s2 \<longrightarrow>
      triggered (heap s2 ! 2) \<and> 2 \<in> set (triggeredTopics s2)"
    by blast
  with s2(1) have 2: "triggered (heap s2 ! 2) \<and> 2 \<in> set (triggeredTopics s2)" by simp
  have "\<exists>s'. publish ''a'' ''M'' example_hash = Inr s'
        \<and> messages (heap s' ! 2) = [] \<and> delivered (drain s') = Some [(32, ''M'')]"
    by (simp add: example_hash_def tree_defs drain_defs observe_defs UINTPTR_MAX_def)
  then obtain s3 where s3: "publish ''a'' ''M'' example_hash = Inr s3"
    "messages (heap s3 ! 2) = []" "delivered (drain s3) = Some [(32, ''M'')]"
    by blast
  from T s3(1) have 3: "heap s3 ! 2 = heap example_hash ! 2" by blast
  from r t m s1 1 s2 2 s3 3 show ?thesis by blast
qed

subsection \<open>C6: the bit of a triggered topic\<close>

text \<open>
  C6 says that every index from 0 to 63 has a bit of its own in \<open>intersection\<close>. The code
  computes \<open>1 << i\<close> in \<open>int\<close>: the shift is undefined from \<open>i = 32\<close> on. With one
  subscriber on 33 topics and a publish on each, \<open>drain\<close> reaches \<open>1 << 32\<close>.
\<close>

theorem C6_shift_of_int:
  "run (subscribe_each 16 (take 33 topics65) @ publish_each ''m'' (take 33 topics65) @ [Drain])
     ([], init) = Some (Inl ShiftCountTooLarge)"
proof -
  let ?pre = "subscribe_each 16 (take 33 topics65) @ publish_each ''m'' (take 33 topics65)"
  have "batch_summary (run ?pre ([], init)) = Some ([], [1..<34], 16, [] # replicate 33 [16])"
    by code_simp
  then obtain s where r: "run ?pre ([], init) = Some (Inr ([], s))"
    and t: "triggeredTopics s = [1..<34]" and m: "min_sub s = 16"
    and h: "map subs (heap s) = [] # replicate 33 [16]"
    by (auto simp: batch_summary_def split: option.splits sum.splits)
  from h have "length (map subs (heap s)) = 34" by simp
  then have "subs (heap s ! 33) = (map subs (heap s)) ! 33" by simp
  with h have "subs (heap s ! 33) = [16]" by simp
  with t m have "drain s = Some (Inl ShiftCountTooLarge)"
    by (intro drain_shift_fault[where j = 32 and c' = "[]"]) simp_all
  with r show ?thesis
    using run_append[of ?pre "[Drain]" "([], init)"] by simp
qed

subsection \<open>C7: the state after drain\<close>

text \<open>
  C7 says that after any drain call every topic of the batch has no message and is not
  triggered, and that \<open>triggeredTopics\<close> is empty. The loop that resets the topics comes
  after the merge loop of \<open>drain\<close>, and the merge loop does not end when a triggered topic
  has no subscriber (see C2). After \<open>subscribe("a", 16)\<close>, \<open>publish("a", "M")\<close> and
  \<open>unsubscribeAll(16)\<close> the topic \<open>a\<close> (at index 1) holds the message and the flag and is in
  \<open>triggeredTopics\<close>; the call of \<open>drain\<close> does not return, so they stay.
\<close>

theorem C7_batch_is_never_reset:
  "topic_after 1 (run [Subscribe ''a'' 16, Publish ''a'' ''M'', UnsubscribeAll 16] ([], init)) =
     Some \<lparr>name = ''a'', parent = Some 0, triggered = True, children = [],
       wildcardChild = None, terminatingWildcardChild = None, messages = [(0, ''M'')], subs = []\<rparr>
   \<and> batch_after (run [Subscribe ''a'' 16, Publish ''a'' ''M'', UnsubscribeAll 16] ([], init)) = Some [1]
   \<and> run [Subscribe ''a'' 16, Publish ''a'' ''M'', UnsubscribeAll 16, Drain] ([], init) = None"
  by (simp add: tree_defs trim_defs observe_defs drain_def drain_loop_diverges)

text \<open>
  A call of \<open>drain\<close> that returns has reset the batch: every topic that was in
  \<open>triggeredTopics\<close> has no message and is not triggered, \<open>triggeredTopics\<close> is empty, and
  a second drain makes no call of \<open>cb\<close> and returns the same state.
\<close>

lemma drain_resets:
  assumes "drain s = Some (Inr (log, s'))"
    and "\<forall>t\<in>set (triggeredTopics s). t < length (heap s)"
  shows "(\<forall>t\<in>set (triggeredTopics s). messages (heap s' ! t) = [] \<and> \<not> triggered (heap s' ! t))
    \<and> triggeredTopics s' = []
    \<and> drain s' = Some (Inr ([], s'))"
proof (cases "triggeredTopics s = []")
  case True
  with assms(1) show ?thesis by (simp add: drain_def)
next
  case False
  with assms(1) obtain m where
    s': "s' = s\<lparr>heap := fold clear_topic (triggeredTopics s) (heap s), triggeredTopics := [], min_sub := m\<rparr>"
    by (auto simp: drain_def split: option.splits sum.splits)
  have "messages (heap s' ! t) = [] \<and> \<not> triggered (heap s' ! t)" if "t \<in> set (triggeredTopics s)" for t
    using that assms(2) fold_clear_topic[of t "heap s" "triggeredTopics s"] by (simp add: s')
  moreover have "triggeredTopics s' = []" by (simp add: s')
  ultimately show ?thesis by (simp add: drain_def)
qed

lemma drain_resets_example:
  "\<exists>s'. drain example_batch =
       Some (Inr ([\<lparr>who = 16, payload = ''M'', built = True, matched = [2]\<rparr>], s'))
     \<and> messages (heap s' ! 2) = [] \<and> \<not> triggered (heap s' ! 2)
     \<and> triggeredTopics s' = []
     \<and> drain s' = Some (Inr ([], s'))"
proof -
  obtain s' where d: "drain example_batch =
      Some (Inr ([\<lparr>who = 16, payload = ''M'', built = True, matched = [2]\<rparr>], s'))"
    by (simp add: example_batch_def drain_defs new_Topic_def)
  have v: "\<forall>t\<in>set (triggeredTopics example_batch). t < length (heap example_batch)"
    by (simp add: example_batch_def)
  from drain_resets[OF d v] d show ?thesis
    by (simp add: example_batch_def)
qed

text \<open>
  When the batch is as \<open>publish\<close> leaves it (\<open>batch_ok\<close>) and its topics are allocated,
  \<open>drain\<close> returns and has reset the batch.
\<close>

lemma drain_returns_and_resets:
  assumes "batch_ok s" and "\<forall>t\<in>set (triggeredTopics s). t < length (heap s)"
  shows "\<exists>log s'. drain s = Some (Inr (log, s'))
    \<and> (\<forall>t\<in>set (triggeredTopics s). messages (heap s' ! t) = [] \<and> \<not> triggered (heap s' ! t))
    \<and> triggeredTopics s' = []
    \<and> drain s' = Some (Inr ([], s'))"
proof -
  from drain_batch[OF assms(1)] obtain log s' where d: "drain s = Some (Inr (log, s'))" by blast
  from drain_resets[OF d assms(2)] d show ?thesis by blast
qed

subsection \<open>C8: the single-level wildcard\<close>

text \<open>
  C8 says that for a subscriber of \<open>a/+/c\<close> a publish on \<open>a/c\<close> stores nothing on the topic
  of the subscriber, and that the next drain delivers nothing to the subscriber. The topic
  \<open>a/c\<close> matches the pattern \<open>a/+\<close>, whose topic exists as an inner topic of \<open>a/+/c\<close> and
  has no subscriber: \<open>publish\<close> stores the message on it, appends it to \<open>triggeredTopics\<close>
  and evaluates \<open>*iterator->subs.begin()\<close> on its empty set.
\<close>

theorem C8_publish_on_inner_topic:
  "run [Subscribe ''a/+/c'' 16, Publish ''a/c'' ''M''] ([], init) = Some (Inl DerefEndOfEmptySet)"
  by (simp add: tree_defs)

text \<open>
  The other two publishes of C8 are as the claim says. For every subscriber \<open>S\<close> of \<open>a/+/c\<close>
  on a new tree and every message \<open>M\<close>, a publish on \<open>a/b/c\<close> stores \<open>M\<close> on the topic of
  \<open>S\<close> (at index 3) and the next drain calls \<open>cb\<close> for \<open>S\<close> with \<open>M\<close>; a publish on
  \<open>a/b/x/c\<close> stores nothing on that topic and the next drain makes no call.
\<close>

lemma single_level_wildcard_runs:
  "topic_after 3 (run [Subscribe ''a/+/c'' S, Publish ''a/b/c'' M] ([], init)) =
     Some \<lparr>name = ''c'', parent = Some 2, triggered = True, children = [],
       wildcardChild = None, terminatingWildcardChild = None, messages = [(0, M)], subs = [S]\<rparr>
   \<and> delivered (run [Subscribe ''a/+/c'' S, Publish ''a/b/c'' M, Drain] ([], init)) = Some [(S, M)]
   \<and> topic_after 3 (run [Subscribe ''a/+/c'' S, Publish ''a/b/x/c'' M] ([], init)) =
     Some \<lparr>name = ''c'', parent = Some 2, triggered = False, children = [],
       wildcardChild = None, terminatingWildcardChild = None, messages = [], subs = [S]\<rparr>
   \<and> delivered (run [Subscribe ''a/+/c'' S, Publish ''a/b/x/c'' M, Drain] ([], init)) = Some []"
  by (simp add: tree_defs drain_defs observe_defs)

subsection \<open>C9: unsubscribeAll and the trimming of the tree\<close>

text \<open>
  C9: take a tree that calls of the interface have built from a new tree, and a subscriber
  \<open>x\<close> (not \<open>nullptr\<close>). \<open>unsubscribeAll\<close> returns, without a fault: the recursion of
  \<open>trimTree\<close> stops below the root, which is in no child map and is never detached. It
  changes the store only: \<open>x\<close> is erased from the subscriber set of every topic in its
  \<open>subscriptions\<close> and no other subscriber set changes. Afterwards the store has the shape
  of a tree (\<open>tree_ok\<close>) and no child map holds a topic without subscriber, child and
  wildcard child (\<open>trimmed\<close>), on any level of the tree; the wildcard pointers of every topic are what its child map holds under \<open>+\<close> and
  \<open>#\<close>, so they are cleared where such a child was detached; and child maps have only
  lost entries, each of them under the name of an unused topic with this parent.
\<close>

theorem C9_unsubscribeAll_trims:
  assumes "run cs ([], init) = Some (Inr (l, s))" and "x \<noteq> 0"
  shows "\<exists>h'. unsubscribeAll x s = Some (Inr (s\<lparr>heap := h'\<rparr>))
    \<and> length h' = length (heap s)
    \<and> (\<forall>t<length (heap s).
          subs (h' ! t) = (if t \<in> set (subscriptions s x) then removeAll x (subs (heap s ! t))
                           else subs (heap s ! t)))
    \<and> tree_ok h' \<and> trimmed h'
    \<and> (\<forall>p<length h'. wildcardChild (h' ! p) = map_of (children (h' ! p)) ''+''
          \<and> terminatingWildcardChild (h' ! p) = map_of (children (h' ! p)) ''#'')
    \<and> (\<forall>p<length h'. set (children (h' ! p)) \<subseteq> set (children (heap s ! p))
          \<and> (\<forall>kc\<in>set (children (heap s ! p)) - set (children (h' ! p)).
                \<exists>u<length h'. is_unused (h' ! u) \<and> parent (h' ! u) = Some p \<and> name (h' ! u) = fst kc))
    \<and> (\<forall>p<length h'. \<forall>kc\<in>set (children (h' ! p)). snd kc \<noteq> root)"
proof -
  from well_formed_reached[OF assms(1)] have wf: "well_formed s" .
  note d = well_formedD[OF wf]
  from d(3) have "\<forall>t\<in>set (subscriptions s x). t \<noteq> root \<and> t < length (heap s)" by blast
  from unsubscribe_each_ok[OF d(1,2) this, of x] obtain h' where
    h': "unsubscribe_each x (subscriptions s x) (heap s) = Some (Inr h')" "tree_ok h'" "trimmed h'"
      "unsub_rel (heap s) h'"
      "\<forall>p<length (heap s). subs (h' ! p) =
          (if p \<in> set (subscriptions s x) then removeAll x (subs (heap s ! p)) else subs (heap s ! p))"
    by blast
  note r = unsub_relD[OF h'(4)]
  from h'(1) assms(2) have 1: "unsubscribeAll x s = Some (Inr (s\<lparr>heap := h'\<rparr>))"
    by (simp add: unsubscribeAll_def)
  have 2: "wildcardChild (h' ! p) = map_of (children (h' ! p)) ''+''
          \<and> terminatingWildcardChild (h' ! p) = map_of (children (h' ! p)) ''#''" if "p < length h'" for p
    using tree_ok_wild(3,4)[OF h'(2) that] by simp
  have 3: "set (children (h' ! p)) \<subseteq> set (children (heap s ! p))
          \<and> (\<forall>kc\<in>set (children (heap s ! p)) - set (children (h' ! p)).
                \<exists>u<length h'. is_unused (h' ! u) \<and> parent (h' ! u) = Some p \<and> name (h' ! u) = fst kc)"
    if "p < length h'" for p
    using r(7)[of p] r(8)[of p] that r(1) by auto
  have 4: "snd kc \<noteq> root" if "p < length h'" "kc \<in> set (children (h' ! p))" for p kc
    using tree_ok_child(5)[OF h'(2) that(1), of "fst kc" "snd kc"] that(2) by simp
  from 1 r(1) h'(5) h'(2) h'(3) 2 3 4 show ?thesis by blast
qed

theorem C9_unsubscribeAll_trims_witness:
  "run [Subscribe ''a/b'' 32, Subscribe ''a/+'' 16, Subscribe ''x/y'' 16] ([], init)
     = Some (Inr ([], example_tree))
   \<and> (16 :: sptr) \<noteq> 0
   \<and> map children (heap example_tree) =
       [[(''a'', 1), (''x'', 4)], [(''+'', 3), (''b'', 2)], [], [], [(''y'', 5)], []]
   \<and> map subs (heap example_tree) = [[], [], [32], [16], [], [16]]
   \<and> map wildcardChild (heap example_tree) = [None, Some 3, None, None, None, None]
   \<and> subscriptions example_tree 16 = [3, 5]
   \<and> (\<exists>h'. unsubscribeAll 16 example_tree = Some (Inr (example_tree\<lparr>heap := h'\<rparr>))
        \<and> map children h' = [[(''a'', 1)], [(''b'', 2)], [], [], [], []]
        \<and> map subs h' = [[], [], [32], [], [], []]
        \<and> map wildcardChild h' = [None, None, None, None, None, None])"
proof -
  have r: "run [Subscribe ''a/b'' 32, Subscribe ''a/+'' 16, Subscribe ''x/y'' 16] ([], init)
     = Some (Inr ([], example_tree))"
    by (simp add: example_tree_def tree_defs)
  have b: "map children (heap example_tree) =
       [[(''a'', 1), (''x'', 4)], [(''+'', 3), (''b'', 2)], [], [], [(''y'', 5)], []]
   \<and> map subs (heap example_tree) = [[], [], [32], [16], [], [16]]
   \<and> map wildcardChild (heap example_tree) = [None, Some 3, None, None, None, None]
   \<and> subscriptions example_tree 16 = [3, 5]"
    by (simp add: example_tree_def tree_defs)
  from C9_unsubscribeAll_trims[OF r, of 16] obtain h' where
    u: "unsubscribeAll 16 example_tree = Some (Inr (example_tree\<lparr>heap := h'\<rparr>))"
    by auto
  have "map_option (map_sum id (\<lambda>s. (map children (heap s), map subs (heap s), map wildcardChild (heap s))))
          (unsubscribeAll 16 example_tree) =
       Some (Inr ([[(''a'', 1)], [(''b'', 2)], [], [], [], []],
          [[], [], [32], [], [], []], [None, None, None, None, None, None]))"
    by (simp add: example_tree_def tree_defs trim_defs)
  with u have "map children h' = [[(''a'', 1)], [(''b'', 2)], [], [], [], []]
        \<and> map subs h' = [[], [], [32], [], [], []]
        \<and> map wildcardChild h' = [None, None, None, None, None, None]"
    by simp
  with r b u show ?thesis by auto
qed

text \<open>
  The last part of the theorem speaks of an unused topic with the name of the entry, not of
  the topic of the entry: \<open>trimTree\<close> erases from the child map of the parent by name. The
  \<open>subscriptions\<close> of a subscriber are never cleared, so a second \<open>unsubscribeAll\<close> visits
  the topics again that the first one has detached, and erases their names again. After
  \<open>subscribe("a", 16)\<close>, \<open>unsubscribeAll(16)\<close> and \<open>subscribe("a", 32)\<close> the root has the
  new topic \<open>a\<close> of subscriber 32 (at index 2) as its child; a second \<open>unsubscribeAll(16)\<close>
  leaves the root without child.
\<close>

lemma trimTree_erases_by_name:
  "map_option (map_sum id (\<lambda>ls. (map children (heap (snd ls)), map subs (heap (snd ls)))))
     (run [Subscribe ''a'' 16, UnsubscribeAll 16, Subscribe ''a'' 32] ([], init)) =
     Some (Inr ([[(''a'', 2)], [], []], [[], [], [32]]))
   \<and> map_option (map_sum id (\<lambda>ls. (map children (heap (snd ls)), map subs (heap (snd ls)))))
     (run [Subscribe ''a'' 16, UnsubscribeAll 16, Subscribe ''a'' 32, UnsubscribeAll 16] ([], init)) =
     Some (Inr ([[], [], []], [[], [], [32]]))"
  by (simp add: tree_defs trim_defs)

subsection \<open>C10: subscribing twice\<close>

text \<open>
  C10 says that a second subscribe of the same subscriber to the same pattern leaves the tree
  and the subscriber as the first one left them. The tree is the same, but \<open>subscribe\<close>
  always executes \<open>subscriber->subscriptions.push_back(iterator)\<close>: the list of the
  subscriber holds the topic twice.
\<close>

theorem C10_subscriptions_counterexample:
  "subscribe ''a/b'' 16 (subscribe ''a/b'' 16 init) \<noteq> subscribe ''a/b'' 16 init"
proof
  assume "subscribe ''a/b'' 16 (subscribe ''a/b'' 16 init) = subscribe ''a/b'' 16 init"
  then have "subscriptions (subscribe ''a/b'' 16 (subscribe ''a/b'' 16 init)) 16
    = subscriptions (subscribe ''a/b'' 16 init) 16" by simp
  then show False by (simp add: tree_defs)
qed

text \<open>
  C10 as amended: in a well-formed store, a second subscribe of the same subscriber to the
  same pattern changes no topic (in particular not the subscriber set of the topic at the
  end of the pattern, which holds the subscriber) and no field of the tree; it appends that
  topic once more to the \<open>subscriptions\<close> of the subscriber.
\<close>

theorem C10_resubscribe:
  assumes "valid_heap (heap s)"
  shows "heap (subscribe topic x (subscribe topic x s)) = heap (subscribe topic x s)
    \<and> messageId (subscribe topic x (subscribe topic x s)) = messageId (subscribe topic x s)
    \<and> triggeredTopics (subscribe topic x (subscribe topic x s)) = triggeredTopics (subscribe topic x s)
    \<and> min_sub (subscribe topic x (subscribe topic x s)) = min_sub (subscribe topic x s)
    \<and> (\<exists>n. n < length (heap (subscribe topic x s))
          \<and> x \<in> set (subs (heap (subscribe topic x s) ! n))
          \<and> subscriptions (subscribe topic x s) = (subscriptions s)(x := subscriptions s x @ [n])
          \<and> subscriptions (subscribe topic x (subscribe topic x s)) =
              (subscriptions s)(x := subscriptions s x @ [n, n]))"
proof -
  obtain t h' where w: "subscribe_walk root (Some topic) (heap s) = (t, h')"
    by (cases "subscribe_walk root (Some topic) (heap s)")
  from assms have "root < length (heap s)" by (simp add: valid_heap_def root_def)
  from subscribe_walk_props[OF w assms this]
  have t: "t < length h'"
    and again: "\<And>h''. keeps_children h' h'' \<Longrightarrow> subscribe_walk root (Some topic) h'' = (t, h'')"
    by auto
  let ?h1 = "h'[t := (h' ! t)\<lparr>subs := set_insert x (subs (h' ! t))\<rparr>]"
  let ?s1 = "s\<lparr>heap := ?h1, subscriptions := (subscriptions s)(x := subscriptions s x @ [t])\<rparr>"
  have s1: "subscribe topic x s = ?s1"
    by (rule subscribe_result[OF w])
  have "children (?h1 ! p) = children (h' ! p)" if "p < length h'" for p
    using that by (cases "p = t") simp_all
  then have "keeps_children h' ?h1"
    by (simp add: keeps_children_def)
  from again[OF this] have "subscribe_walk root (Some topic) (heap ?s1) = (t, ?h1)" by simp
  from subscribe_result[OF this, of x]
  have s2: "subscribe topic x ?s1 =
      s\<lparr>heap := ?h1, subscriptions := (subscriptions s)(x := subscriptions s x @ [t, t])\<rparr>"
    using t by (simp add: set_insert_idem)
  have "x \<in> set (subs (?h1 ! t))" using t by (simp add: set_insert_member)
  with t show ?thesis
    unfolding s1 s2 by (intro conjI exI[of _ t]) simp_all
qed
theorem C10_resubscribe_witness:
  "valid_heap (heap init)
   \<and> heap (subscribe ''a/b'' 16 (subscribe ''a/b'' 16 init)) = heap (subscribe ''a/b'' 16 init)
   \<and> subs (heap (subscribe ''a/b'' 16 init) ! 2) = [16]
   \<and> subscriptions (subscribe ''a/b'' 16 init) 16 = [2]
   \<and> subscriptions (subscribe ''a/b'' 16 (subscribe ''a/b'' 16 init)) 16 = [2, 2]"
  using C10_resubscribe[OF valid_heap_init, of "''a/b''" 16]
  by (simp add: tree_defs valid_heap_def)

subsection \<open>C4: the capacity of triggeredTopics\<close>

text \<open>
  C4 says that a 65th triggered topic is reported as a capacity error and that nothing is
  written past the 64 entries of \<open>triggeredTopics\<close>. The code has no check: with one
  subscriber on 65 topics, the 65th publish before a drain executes
  \<open>triggeredTopics[64] = ...\<close>, a write past the end of the array.
\<close>

theorem C4_write_past_the_array:
  "run (subscribe_each 16 topics65 @ publish_each ''m'' topics65) ([], init) =
     Some (Inl WritePastTriggeredTopics)"
  by code_simp

end
